theory Spec2Isabelle
  imports Main "HOL-Library.Monad_Syntax" "HOL-Library.Word"
begin

section \<open>Conventions of the embedding\<close>

text \<open>
  The two class templates \<^verbatim>\<open>mystl::vector<T>\<close> (vector.h) and \<^verbatim>\<open>mystl::list<T>\<close> (list.h) are
  embedded as functions on explicit states.

  \<^item> An operation returns an \<open>option\<close>: \<open>None\<close> stands for undefined behaviour of the
    C++ program (an access outside the allocated buffer, a dereference of a null or
    of a deleted node); \<open>Some\<close> carries the state after the call (and the returned
    iterator, where there is one).
  \<^item> The exception thrown by \<^verbatim>\<open>at\<close> is a value of the type \<open>error\<close>.
  \<^item> \<^verbatim>\<open>T()\<close> is the constant \<open>default\<close> of the type class of that name; \<^verbatim>\<open>new T[n]\<close> is
    an array of \<open>n\<close> such values, as it is for a class type \<open>T\<close>. (For a scalar \<open>T\<close> the
    slots of a new array are indeterminate in C++. Such slots lie at and beyond \<open>sz\<close>; only
    the copy constructor and the second loop of \<^verbatim>\<open>vector::erase\<close> read there, and what they
    read they store at or beyond the new \<open>sz\<close>.)
  \<^item> \<^verbatim>\<open>size_t\<close> is \<open>nat\<close>. The header of both classes assumes that every allocation
    succeeds, so the sizes and capacities of existing containers are not bounded here
    (a capacity whose double wraps belongs to a buffer of \<open>2 ^ 63\<close> slots); where the source
    decrements a \<^verbatim>\<open>size_t\<close> that may be \<open>0\<close> the model says what follows from the
    wrap-around. The argument \<open>n\<close> of the vector constructor is any \<^verbatim>\<open>size_t\<close>, so its
    doubling is taken modulo \<open>2 ^ 64\<close>. The one narrowing conversion of the source
    (\<^verbatim>\<open>int i = sz\<close> in \<^verbatim>\<open>vector::clear\<close>) is modelled on 32-bit words.
  \<^item> A vector iterator (\<^verbatim>\<open>T*\<close>) is the offset of the slot from the start \<^verbatim>\<open>t\<close> of the buffer.
  \<^item> A parameter of type \<^verbatim>\<open>const T&\<close> is read while what it refers to is still alive, and
    unchanged since the call was made, in every operation but three: \<^verbatim>\<open>push_back\<close> and
    \<^verbatim>\<open>push_back_incremental\<close> of the vector read it after \<^verbatim>\<open>reserve\<close> may have freed the
    buffer, and \<^verbatim>\<open>resize\<close> hands it on to \<^verbatim>\<open>push_back\<close>. These three take an \<open>arg\<close>, which
    tells a value stored outside the vector from a reference to one of its own slots; the
    other operations take the value.
\<close>

datatype error = out_of_range

text \<open>\<^verbatim>\<open>int()\<close> is \<open>0\<close>.\<close>

instantiation int :: default
begin
definition "default = (0 :: int)"
instance ..
end

subsection \<open>Raw arrays\<close>

definition new_array :: "nat \<Rightarrow> 'a::default list" where
  "new_array n = replicate n default"

definition rd :: "'a list \<Rightarrow> nat \<Rightarrow> 'a option" where
  "rd a i = (if i < length a then Some (a ! i) else None)"

definition wr :: "'a list \<Rightarrow> nat \<Rightarrow> 'a \<Rightarrow> 'a list option" where
  "wr a i x = (if i < length a then Some (a[i := x]) else None)"

section \<open>vector.h\<close>

record 'a vector =
  t :: "'a list"
  cap :: nat
  sz :: nat

text \<open>\<^verbatim>\<open>for (size_t i = i0; i < n; i++) a[i] = val;\<close>\<close>

function fill_loop :: "'a list \<Rightarrow> nat \<Rightarrow> nat \<Rightarrow> 'a \<Rightarrow> 'a list option" where
  "fill_loop a i n val =
     (if i < n then do { a' \<leftarrow> wr a i val; fill_loop a' (i + 1) n val } else Some a)"
  by pat_completeness auto
termination
  by (relation "measure (\<lambda>(a, i, n, val). n - i)") auto

declare fill_loop.simps [simp del]

text \<open>\<^verbatim>\<open>for (size_t i = i0; i < n; i++) dst[i] = src[i];\<close>\<close>

function copy_loop :: "'a list \<Rightarrow> 'a list \<Rightarrow> nat \<Rightarrow> nat \<Rightarrow> 'a list option" where
  "copy_loop src dst i n =
     (if i < n then do { x \<leftarrow> rd src i; dst' \<leftarrow> wr dst i x; copy_loop src dst' (i + 1) n }
      else Some dst)"
  by pat_completeness auto
termination
  by (relation "measure (\<lambda>(src, dst, i, n). n - i)") auto

declare copy_loop.simps [simp del]

text \<open>
  The constructor \<^verbatim>\<open>vector(size_t n = 0, const T& val = T())\<close>. The product \<^verbatim>\<open>2*n\<close> is
  computed in \<^verbatim>\<open>size_t\<close> and wraps; when it does, the loop writes beyond the buffer.
\<close>

definition vector_new :: "nat \<Rightarrow> 'a::default \<Rightarrow> 'a vector option" where
  "vector_new n val = do {
     let c = max 10 ((2 * n) mod 2 ^ 64);
     a \<leftarrow> fill_loop (new_array c) 0 n val;
     Some \<lparr>t = a, cap = c, sz = n\<rparr>
   }"

text \<open>The copy constructor copies all \<open>cap\<close> slots of its argument.\<close>

definition vector_copy :: "'a::default vector \<Rightarrow> 'a vector option" where
  "vector_copy v = do {
     a \<leftarrow> copy_loop (t v) (new_array (cap v)) 0 (cap v);
     Some \<lparr>t = a, cap = cap v, sz = sz v\<rparr>
   }"

text \<open>
  Copy assignment. The flag \<open>same\<close> is the test \<^verbatim>\<open>&v == this\<close>; when it holds the two
  vectors are one object and the call returns at once.
\<close>

definition vector_assign :: "'a::default vector \<Rightarrow> 'a vector \<Rightarrow> bool \<Rightarrow> 'a vector option" where
  "vector_assign this v same =
     (if same then Some this
      else do {
        a \<leftarrow> copy_loop (t v) (new_array (cap v)) 0 (sz v);
        Some (this\<lparr>t := a, sz := sz v, cap := cap v\<rparr>)
      })"

definition vector_size :: "'a vector \<Rightarrow> nat" where
  "vector_size v = sz v"

definition vector_capacity :: "'a vector \<Rightarrow> nat" where
  "vector_capacity v = cap v"

definition vector_empty :: "'a vector \<Rightarrow> bool" where
  "vector_empty v = (sz v = 0)"

text \<open>
  \<^verbatim>\<open>reserve\<close>. The flag returned beside the vector says whether \<^verbatim>\<open>delete[] t\<close> has run, that
  is, whether references into the buffer the vector had before the call now dangle.
\<close>

definition reserve_freed :: "'a::default vector \<Rightarrow> nat \<Rightarrow> ('a vector \<times> bool) option" where
  "reserve_freed v c =
     (if c > cap v then do {
        tmp \<leftarrow> copy_loop (t v) (new_array c) 0 (sz v);
        Some (v\<lparr>t := tmp, cap := c\<rparr>, True)
      }
      else Some (v, False))"

definition reserve :: "'a::default vector \<Rightarrow> nat \<Rightarrow> 'a vector option" where
  "reserve v c = do { (v', freed) \<leftarrow> reserve_freed v c; Some v' }"

text \<open>
  The argument of \<^verbatim>\<open>push_back\<close>, a \<^verbatim>\<open>const T&\<close>: \<open>Val x\<close> refers to an object outside the vector
  that holds \<open>x\<close>; \<open>Own i\<close> refers to slot \<open>i\<close> of the buffer the vector has when the call is
  made, as in \<^verbatim>\<open>v.push_back(v[i])\<close>. Reading an \<open>Own\<close> reference after that buffer has been
  freed is undefined behaviour.
\<close>

datatype 'a arg = Val 'a | Own nat

definition read_arg :: "'a list \<Rightarrow> bool \<Rightarrow> 'a arg \<Rightarrow> 'a option" where
  "read_arg a freed r =
     (case r of Val x \<Rightarrow> Some x | Own i \<Rightarrow> if freed then None else rd a i)"

text \<open>
  \<^verbatim>\<open>at\<close>: the test \<^verbatim>\<open>i < 0\<close> of the source is never true of a \<^verbatim>\<open>size_t\<close>. The result is the
  exception or the element, with the vector as the call leaves it.
\<close>

definition vector_at :: "'a vector \<Rightarrow> nat \<Rightarrow> ((error + 'a) \<times> 'a vector) option" where
  "vector_at v i =
     (if i \<ge> sz v then Some (Inl out_of_range, v)
      else do { x \<leftarrow> rd (t v) i; Some (Inr x, v) })"

text \<open>
  \<^verbatim>\<open>push_back\<close> and \<^verbatim>\<open>push_back_incremental\<close>: the assignment \<^verbatim>\<open>t[sz] = val\<close> reads \<open>val\<close>
  after the call of \<^verbatim>\<open>reserve\<close>.
\<close>

definition push_back :: "'a::default vector \<Rightarrow> 'a arg \<Rightarrow> 'a vector option" where
  "push_back v val = do {
     (v1, freed) \<leftarrow> (if sz v = cap v then reserve_freed v (cap v * 2) else Some (v, False));
     x \<leftarrow> read_arg (t v1) freed val;
     a \<leftarrow> wr (t v1) (sz v1) x;
     Some (v1\<lparr>t := a, sz := sz v1 + 1\<rparr>)
   }"

definition push_back_incremental :: "'a::default vector \<Rightarrow> 'a arg \<Rightarrow> 'a vector option" where
  "push_back_incremental v val = do {
     (v1, freed) \<leftarrow> (if sz v = cap v then reserve_freed v (cap v + 1) else Some (v, False));
     x \<leftarrow> read_arg (t v1) freed val;
     a \<leftarrow> wr (t v1) (sz v1) x;
     Some (v1\<lparr>t := a, sz := sz v1 + 1\<rparr>)
   }"

definition pop_back :: "'a::default vector \<Rightarrow> 'a vector option" where
  "pop_back v =
     (if \<not> vector_empty v then do {
        a \<leftarrow> wr (t v) (sz v - 1) default;
        Some (v\<lparr>t := a, sz := sz v - 1\<rparr>)
      }
      else Some v)"

text \<open>
  \<^verbatim>\<open>resize\<close>: the two \<^verbatim>\<open>while\<close> loops, in the order of the source. The parameter \<open>val\<close> is
  handed on to \<^verbatim>\<open>push_back\<close> as the reference it is.
\<close>

function resize_shrink :: "'a::default vector \<Rightarrow> nat \<Rightarrow> 'a vector option" where
  "resize_shrink v n =
     (if n < sz v then do { v1 \<leftarrow> pop_back v; resize_shrink v1 n } else Some v)"
  by pat_completeness auto
termination
  by (relation "measure (\<lambda>(v, n). sz v)")
     (auto simp: pop_back_def vector_empty_def wr_def split: if_splits)

declare resize_shrink.simps [simp del]

function resize_grow :: "'a::default vector \<Rightarrow> nat \<Rightarrow> 'a arg \<Rightarrow> 'a vector option" where
  "resize_grow v n val =
     (if n > sz v then do { v1 \<leftarrow> push_back v val; resize_grow v1 n val } else Some v)"
  by pat_completeness auto
termination
  by (relation "measure (\<lambda>(v, n, val). n - sz v)")
     (auto simp: push_back_def reserve_freed_def wr_def split: if_splits bind_splits)

declare resize_grow.simps [simp del]

definition resize :: "'a::default vector \<Rightarrow> nat \<Rightarrow> 'a arg \<Rightarrow> 'a vector option" where
  "resize v n val = do { v1 \<leftarrow> resize_shrink v n; resize_grow v1 n val }"

text \<open>
  \<^verbatim>\<open>insert\<close>. The loop runs while \<^verbatim>\<open>i != indx\<close>, with \<open>tmp\<close> and \<open>indx\<close> counted down together
  from \<open>sz\<close>. When \<open>tmp\<close> is \<open>0\<close> the decrement wraps and \<^verbatim>\<open>t[tmp]\<close> is outside the buffer, as
  is the pointer \<open>indx\<close>: there the behaviour is undefined. The argument \<^verbatim>\<open>t[tmp]\<close> of
  \<^verbatim>\<open>push_back\<close> is a reference to the vector's own slot \<open>tmp\<close>. After \<^verbatim>\<open>push_back\<close> the size
  is positive, so \<^verbatim>\<open>--sz\<close> does not wrap. The parameter \<open>val\<close> of \<^verbatim>\<open>insert\<close> is read after the
  loop, which writes slot \<open>sz\<close> only and frees nothing (\<open>sz < cap\<close> at every \<^verbatim>\<open>push_back\<close>).
\<close>

function insert_loop :: "nat \<Rightarrow> 'a::default vector \<Rightarrow> nat \<Rightarrow> nat \<Rightarrow> ('a vector \<times> nat) option" where
  "insert_loop i v tmp indx =
     (if i \<noteq> indx then
        (if tmp = 0 \<or> indx = 0 then None
         else do {
           v1 \<leftarrow> push_back v (Own (tmp - 1));
           insert_loop i (v1\<lparr>sz := sz v1 - 1\<rparr>) (tmp - 1) (indx - 1)
         })
      else Some (v, tmp))"
  by pat_completeness auto
termination
  by (relation "measure (\<lambda>(i, v, tmp, indx). indx)") auto

declare insert_loop.simps [simp del]

definition vector_insert :: "'a::default vector \<Rightarrow> nat \<Rightarrow> 'a \<Rightarrow> ('a vector \<times> nat) option" where
  "vector_insert v i val =
     (if sz v < cap v then do {
        (v1, tmp) \<leftarrow> insert_loop i v (sz v) (sz v);
        a \<leftarrow> wr (t v1) tmp val;
        Some (v1\<lparr>t := a, sz := sz v1 + 1\<rparr>, i)
      }
      else Some (v, i))"

text \<open>
  \<^verbatim>\<open>erase\<close>. The first loop counts \<open>indx\<close> up from the start of the buffer until it meets
  \<open>i\<close>; the second one shifts the slots \<open>tmp + 1 .. cap - 1\<close> down by one. With \<open>cap = 0\<close>
  the bound \<^verbatim>\<open>cap - 1\<close> wraps and the loop leaves the buffer.
\<close>

function erase_find :: "nat \<Rightarrow> nat \<Rightarrow> nat \<Rightarrow> nat option" where
  "erase_find i tmp indx =
     (if i \<noteq> indx then (if indx < i then erase_find i (tmp + 1) (indx + 1) else None)
      else Some tmp)"
  by pat_completeness auto
termination
  by (relation "measure (\<lambda>(i, tmp, indx). i - indx)") auto

declare erase_find.simps [simp del]

function shift_loop :: "'a list \<Rightarrow> nat \<Rightarrow> nat \<Rightarrow> 'a list option" where
  "shift_loop a j n =
     (if j < n then do { x \<leftarrow> rd a (j + 1); a' \<leftarrow> wr a j x; shift_loop a' (j + 1) n }
      else Some a)"
  by pat_completeness auto
termination
  by (relation "measure (\<lambda>(a, j, n). n - j)") auto

declare shift_loop.simps [simp del]

definition vector_erase :: "'a vector \<Rightarrow> nat \<Rightarrow> ('a vector \<times> nat) option" where
  "vector_erase v i =
     (if \<not> vector_empty v then do {
        tmp \<leftarrow> erase_find i 0 0;
        a \<leftarrow> (if cap v = 0 then None else shift_loop (t v) tmp (cap v - 1));
        Some (v\<lparr>t := a, sz := sz v - 1\<rparr>, i)
      }
      else Some (v, i))"

text \<open>\<^verbatim>\<open>clear\<close>: \<^verbatim>\<open>for (int i = sz; i > 0; --i) pop_back();\<close> with \<open>i\<close> a 32-bit \<^verbatim>\<open>int\<close>.\<close>

function clear_loop :: "int \<Rightarrow> 'a::default vector \<Rightarrow> 'a vector option" where
  "clear_loop i v = (if i > 0 then do { v1 \<leftarrow> pop_back v; clear_loop (i - 1) v1 } else Some v)"
  by pat_completeness auto
termination
  by (relation "measure (\<lambda>(i, v). nat i)") auto

declare clear_loop.simps [simp del]

definition clear :: "'a::default vector \<Rightarrow> 'a vector option" where
  "clear v = clear_loop (sint (word_of_nat (sz v) :: 32 word)) v"

section \<open>list.h\<close>

text \<open>
  A \<^verbatim>\<open>node*\<close> is an address or null (\<open>None\<close>). The heap is the sequence of all cells
  allocated so far: \<^verbatim>\<open>new\<close> appends a cell and returns its address, \<^verbatim>\<open>delete\<close> empties the
  cell (\<^verbatim>\<open>delete\<close> of a null pointer does nothing). Reading or writing through a null
  pointer or through a pointer to an emptied cell is undefined behaviour.
\<close>

type_synonym ptr = "nat option"

record 'a node =
  node_t :: 'a
  node_prev :: ptr
  node_next :: ptr

type_synonym 'a heap = "'a node option list"

definition new_node :: "'a heap \<Rightarrow> 'a \<Rightarrow> ptr \<Rightarrow> ptr \<Rightarrow> 'a heap \<times> ptr" where
  "new_node h val p n =
     (h @ [Some \<lparr>node_t = val, node_prev = p, node_next = n\<rparr>], Some (length h))"

definition deref :: "'a heap \<Rightarrow> ptr \<Rightarrow> 'a node option" where
  "deref h p = (case p of None \<Rightarrow> None | Some a \<Rightarrow> if a < length h then h ! a else None)"

definition delete_node :: "'a heap \<Rightarrow> ptr \<Rightarrow> 'a heap option" where
  "delete_node h p =
     (case p of None \<Rightarrow> Some h | Some a \<Rightarrow> do { n \<leftarrow> deref h p; Some (h[a := None]) })"

definition get_t :: "'a heap \<Rightarrow> ptr \<Rightarrow> 'a option" where
  "get_t h p = do { n \<leftarrow> deref h p; Some (node_t n) }"

definition get_prev :: "'a heap \<Rightarrow> ptr \<Rightarrow> ptr option" where
  "get_prev h p = do { n \<leftarrow> deref h p; Some (node_prev n) }"

definition get_next :: "'a heap \<Rightarrow> ptr \<Rightarrow> ptr option" where
  "get_next h p = do { n \<leftarrow> deref h p; Some (node_next n) }"

definition set_prev :: "'a heap \<Rightarrow> ptr \<Rightarrow> ptr \<Rightarrow> 'a heap option" where
  "set_prev h p q =
     (case p of None \<Rightarrow> None
      | Some a \<Rightarrow> do { n \<leftarrow> deref h p; Some (h[a := Some (n\<lparr>node_prev := q\<rparr>)]) })"

definition set_next :: "'a heap \<Rightarrow> ptr \<Rightarrow> ptr \<Rightarrow> 'a heap option" where
  "set_next h p q =
     (case p of None \<Rightarrow> None
      | Some a \<Rightarrow> do { n \<leftarrow> deref h p; Some (h[a := Some (n\<lparr>node_next := q\<rparr>)]) })"

text \<open>
  A list object: its three members, together with the heap in which its nodes live. A list
  iterator is the pointer \<open>n\<close> it holds; \<^verbatim>\<open>begin()\<close> is \<open>head\<close> and \<^verbatim>\<open>end()\<close> is null.
\<close>

record 'a llist =
  nodes :: "'a heap"
  head :: ptr
  tail :: ptr
  list_sz :: nat

definition list_begin :: "'a llist \<Rightarrow> ptr" where
  "list_begin l = head l"

definition list_end :: "'a llist \<Rightarrow> ptr" where
  "list_end l = None"

definition list_size :: "'a llist \<Rightarrow> nat" where
  "list_size l = list_sz l"

definition list_empty :: "'a llist \<Rightarrow> bool" where
  "list_empty l = (list_sz l = 0)"

definition list_push_front :: "'a llist \<Rightarrow> 'a \<Rightarrow> 'a llist option" where
  "list_push_front l val =
     (if list_empty l then do {
        let (h, midNode) = new_node (nodes l) val None None;
        Some (l\<lparr>nodes := h, head := midNode, tail := midNode, list_sz := list_sz l + 1\<rparr>)
      }
      else do {
        let (h, midNode) = new_node (nodes l) val None (head l);
        h' \<leftarrow> set_prev h (head l) midNode;
        Some (l\<lparr>nodes := h', head := midNode, list_sz := list_sz l + 1\<rparr>)
      })"

definition list_pop_front :: "'a llist \<Rightarrow> 'a llist option" where
  "list_pop_front l =
     (if list_empty l then Some l
      else if list_sz l = 1 then do {
        h \<leftarrow> delete_node (nodes l) (head l);
        Some (l\<lparr>nodes := h, tail := None, head := None, list_sz := list_sz l - 1\<rparr>)
      }
      else do {
        hd' \<leftarrow> get_next (nodes l) (head l);
        p \<leftarrow> get_prev (nodes l) hd';
        h1 \<leftarrow> delete_node (nodes l) p;
        h2 \<leftarrow> set_prev h1 hd' None;
        Some (l\<lparr>nodes := h2, head := hd', list_sz := list_sz l - 1\<rparr>)
      })"

definition list_push_back :: "'a llist \<Rightarrow> 'a \<Rightarrow> 'a llist option" where
  "list_push_back l val =
     (if list_empty l then do {
        let (h, midNode) = new_node (nodes l) val None None;
        Some (l\<lparr>nodes := h, head := midNode, tail := midNode, list_sz := list_sz l + 1\<rparr>)
      }
      else do {
        let (h, midNode) = new_node (nodes l) val (tail l) None;
        h' \<leftarrow> set_next h (tail l) midNode;
        Some (l\<lparr>nodes := h', tail := midNode, list_sz := list_sz l + 1\<rparr>)
      })"

definition list_pop_back :: "'a llist \<Rightarrow> 'a llist option" where
  "list_pop_back l =
     (if list_empty l then Some l
      else if list_sz l = 1 then do {
        h \<leftarrow> delete_node (nodes l) (tail l);
        Some (l\<lparr>nodes := h, tail := None, head := None, list_sz := list_sz l - 1\<rparr>)
      }
      else do {
        tl' \<leftarrow> get_prev (nodes l) (tail l);
        n \<leftarrow> get_next (nodes l) tl';
        h1 \<leftarrow> delete_node (nodes l) n;
        h2 \<leftarrow> set_next h1 tl' None;
        Some (l\<lparr>nodes := h2, tail := tl', list_sz := list_sz l - 1\<rparr>)
      })"

text \<open>
  \<^verbatim>\<open>insert\<close> and \<^verbatim>\<open>erase\<close> return the iterator they were given. In the last branch of
  \<^verbatim>\<open>erase\<close> the decrement of \<open>sz\<close> is not guarded; a size of \<open>0\<close> there would wrap, which
  the model reports as \<open>None\<close>.
\<close>

definition list_insert :: "'a llist \<Rightarrow> ptr \<Rightarrow> 'a \<Rightarrow> ('a llist \<times> ptr) option" where
  "list_insert l i val =
     (if i = list_begin l then do { l' \<leftarrow> list_push_front l val; Some (l', i) }
      else if i = list_end l then do { l' \<leftarrow> list_push_back l val; Some (l', i) }
      else do {
        p \<leftarrow> get_prev (nodes l) i;
        let (h, midNode) = new_node (nodes l) val p i;
        p' \<leftarrow> get_prev h i;
        h1 \<leftarrow> set_next h p' midNode;
        h2 \<leftarrow> set_prev h1 i midNode;
        Some (l\<lparr>nodes := h2, list_sz := list_sz l + 1\<rparr>, i)
      })"

definition list_erase :: "'a llist \<Rightarrow> ptr \<Rightarrow> ('a llist \<times> ptr) option" where
  "list_erase l i =
     (if i = list_begin l then do { l' \<leftarrow> list_pop_front l; Some (l', i) }
      else if i = list_end l then do { l' \<leftarrow> list_pop_back l; Some (l', i) }
      else do {
        n \<leftarrow> get_next (nodes l) i;
        p \<leftarrow> get_prev (nodes l) i;
        h1 \<leftarrow> set_prev (nodes l) n p;
        p' \<leftarrow> get_prev h1 i;
        n' \<leftarrow> get_next h1 i;
        h2 \<leftarrow> set_next h1 p' n';
        h3 \<leftarrow> delete_node h2 i;
        if list_sz l = 0 then None
        else Some (l\<lparr>nodes := h3, list_sz := list_sz l - 1\<rparr>, i)
      })"

text \<open>\<^verbatim>\<open>resize\<close>: the two \<^verbatim>\<open>while\<close> loops, in the order of the source.\<close>

function list_resize_grow :: "'a llist \<Rightarrow> nat \<Rightarrow> 'a \<Rightarrow> 'a llist option" where
  "list_resize_grow l n val =
     (if list_sz l < n then do { l1 \<leftarrow> list_push_back l val; list_resize_grow l1 n val }
      else Some l)"
  by pat_completeness auto
termination
  by (relation "measure (\<lambda>(l, n, val). n - list_sz l)")
     (auto simp: list_push_back_def new_node_def split: if_splits bind_splits)

declare list_resize_grow.simps [simp del]

function list_resize_shrink :: "'a llist \<Rightarrow> nat \<Rightarrow> 'a llist option" where
  "list_resize_shrink l n =
     (if list_sz l > n then do { l1 \<leftarrow> list_pop_back l; list_resize_shrink l1 n }
      else Some l)"
  by pat_completeness auto
termination
  by (relation "measure (\<lambda>(l, n). list_sz l)")
     (auto simp: list_pop_back_def list_empty_def split: if_splits bind_splits)

declare list_resize_shrink.simps [simp del]

definition list_resize :: "'a llist \<Rightarrow> nat \<Rightarrow> 'a \<Rightarrow> 'a llist option" where
  "list_resize l n val = do { l1 \<leftarrow> list_resize_grow l n val; list_resize_shrink l1 n }"

text \<open>
  The constructor \<^verbatim>\<open>list(size_t n = 0, const T& val = T())\<close>, for a list object created
  while the heap is \<open>h\<close>.
\<close>

definition list_new :: "'a heap \<Rightarrow> nat \<Rightarrow> 'a \<Rightarrow> 'a llist option" where
  "list_new h n val =
     list_resize_grow \<lparr>nodes = h, head = None, tail = None, list_sz = 0\<rparr> n val"

text \<open>
  The loop of the copy constructor and of the copy assignment,
  \<^verbatim>\<open>for (it = v.cbegin(); it != v.cend(); ++it) push_back(*it);\<close>, and the loop of \<^verbatim>\<open>clear\<close>,
  \<^verbatim>\<open>for (it = begin(); it != end(); ++it) pop_front();\<close>. Neither is bounded by a counter,
  so a run that does not end has the value \<open>None\<close> as well.
\<close>

partial_function (option) list_copy_loop :: "'a llist \<Rightarrow> ptr \<Rightarrow> 'a llist option" where
  "list_copy_loop l it =
     (if it \<noteq> None then do {
        x \<leftarrow> get_t (nodes l) it;
        l1 \<leftarrow> list_push_back l x;
        it' \<leftarrow> get_next (nodes l1) it;
        list_copy_loop l1 it'
      }
      else Some l)"

partial_function (option) list_clear_loop :: "'a llist \<Rightarrow> ptr \<Rightarrow> 'a llist option" where
  "list_clear_loop l it =
     (if it \<noteq> None then do {
        l1 \<leftarrow> list_pop_front l;
        it' \<leftarrow> get_next (nodes l1) it;
        list_clear_loop l1 it'
      }
      else Some l)"

definition list_clear :: "'a llist \<Rightarrow> 'a llist option" where
  "list_clear l = list_clear_loop l (list_begin l)"

text \<open>
  The copy constructor builds a list from \<open>v\<close> in the heap of \<open>v\<close>. The copy assignment
  has no test for self-assignment; \<open>same\<close> says whether \<open>v\<close> is the object assigned to, in
  which case \<^verbatim>\<open>v.cbegin()\<close> is read from the object after \<^verbatim>\<open>clear()\<close>.
\<close>

definition list_copy :: "'a llist \<Rightarrow> 'a llist option" where
  "list_copy v =
     list_copy_loop \<lparr>nodes = nodes v, head = None, tail = None, list_sz = 0\<rparr> (list_begin v)"

definition list_assign :: "'a llist \<Rightarrow> 'a llist \<Rightarrow> bool \<Rightarrow> 'a llist option" where
  "list_assign this v same = do {
     l1 \<leftarrow> list_clear this;
     list_copy_loop l1 (if same then list_begin l1 else list_begin v)
   }"

section \<open>Invariants and abstraction\<close>

text \<open>
  A vector is well formed when its buffer has \<open>cap\<close> slots, of which the first \<open>sz\<close> are
  live, and \<open>cap\<close> is positive (the constructors allocate at least ten slots). Its
  contents are the live slots.
\<close>

definition vector_inv :: "'a vector \<Rightarrow> bool" where
  "vector_inv v = (length (t v) = cap v \<and> sz v \<le> cap v \<and> 0 < cap v)"

definition elems :: "'a vector \<Rightarrow> 'a list" where
  "elems v = take (sz v) (t v)"

text \<open>
  A client that applies a sequence of \<^verbatim>\<open>push_back\<close> and \<^verbatim>\<open>pop_back\<close> calls to a vector,
  pushing values of its own, the
  number of calls of each kind, and the number of \<^verbatim>\<open>pop_back\<close> calls that meet an empty
  vector when the sequence starts at size \<open>n\<close>.
\<close>

datatype 'a op = Push 'a | Pop

fun run_ops :: "'a::default vector \<Rightarrow> 'a op list \<Rightarrow> 'a vector option" where
  "run_ops v [] = Some v"
| "run_ops v (Push x # ops) = do { v1 \<leftarrow> push_back v (Val x); run_ops v1 ops }"
| "run_ops v (Pop # ops) = do { v1 \<leftarrow> pop_back v; run_ops v1 ops }"

fun pushes :: "'a op list \<Rightarrow> nat" where
  "pushes [] = 0"
| "pushes (Push x # ops) = Suc (pushes ops)"
| "pushes (Pop # ops) = pushes ops"

fun pops :: "'a op list \<Rightarrow> nat" where
  "pops [] = 0"
| "pops (Push x # ops) = pops ops"
| "pops (Pop # ops) = Suc (pops ops)"

fun pops_on_empty :: "nat \<Rightarrow> 'a op list \<Rightarrow> nat" where
  "pops_on_empty n [] = 0"
| "pops_on_empty n (Push x # ops) = pops_on_empty (Suc n) ops"
| "pops_on_empty n (Pop # ops) =
     (if n = 0 then Suc (pops_on_empty 0 ops) else pops_on_empty (n - 1) ops)"

text \<open>
  The structure of a list. \<open>dpath h pv x as y\<close>: starting at the pointer \<open>x\<close>, the nodes at the
  addresses \<open>as\<close> are allocated and linked in this order by their \<open>next\<close> pointers, ending in
  \<open>y\<close>, and each \<open>prev\<close> pointer is the node before (\<open>pv\<close> for the first one).
\<close>

fun dpath :: "'a heap \<Rightarrow> ptr \<Rightarrow> ptr \<Rightarrow> nat list \<Rightarrow> ptr \<Rightarrow> bool" where
  "dpath h pv x [] y = (x = y)"
| "dpath h pv x (a # as) y =
     (x = Some a \<and>
      (case deref h (Some a) of
         None \<Rightarrow> False
       | Some n \<Rightarrow> node_prev n = pv \<and> dpath h (Some a) (node_next n) as y))"

definition last_ptr :: "ptr \<Rightarrow> nat list \<Rightarrow> ptr" where
  "last_ptr pv as = (if as = [] then pv else Some (last as))"

text \<open>
  \<open>dll h first final as\<close>: the nodes at \<open>as\<close> form the whole chain that starts at \<open>first\<close>: the first
  node has no predecessor, the last one no successor, and \<open>final\<close> is the last node (both
  pointers are null when there is no node).
\<close>

definition dll :: "'a heap \<Rightarrow> ptr \<Rightarrow> ptr \<Rightarrow> nat list \<Rightarrow> bool" where
  "dll h first final as = (dpath h None first as None \<and> final = last_ptr None as)"

text \<open>The addresses met on the first \<open>n\<close> steps along \<open>next\<close>.\<close>

fun follow :: "'a heap \<Rightarrow> ptr \<Rightarrow> nat \<Rightarrow> nat list option" where
  "follow h p 0 = Some []"
| "follow h p (Suc n) =
     (case p of
        None \<Rightarrow> None
      | Some a \<Rightarrow> do { nd \<leftarrow> deref h p; as \<leftarrow> follow h (node_next nd) n; Some (a # as) })"

text \<open>
  The invariant of a list object: the \<open>sz\<close> nodes reached from \<open>head\<close> form the whole chain
  between \<open>head\<close> and \<open>tail\<close>.
\<close>

definition list_inv :: "'a llist \<Rightarrow> bool" where
  "list_inv l =
     (case follow (nodes l) (head l) (list_sz l) of
        None \<Rightarrow> False
      | Some as \<Rightarrow> dll (nodes l) (head l) (tail l) as)"

text \<open>
  Traversals by a client: forward from a pointer along \<open>next\<close> until null, collecting the
  values, and backward along \<open>prev\<close>. The third argument bounds the number of steps; a
  chain without repetition has no more nodes than the heap has cells.
\<close>

fun walk_fwd :: "'a heap \<Rightarrow> ptr \<Rightarrow> nat \<Rightarrow> 'a list option" where
  "walk_fwd h None k = Some []"
| "walk_fwd h (Some a) 0 = None"
| "walk_fwd h (Some a) (Suc k) =
     do { nd \<leftarrow> deref h (Some a); xs \<leftarrow> walk_fwd h (node_next nd) k; Some (node_t nd # xs) }"

fun walk_bwd :: "'a heap \<Rightarrow> ptr \<Rightarrow> nat \<Rightarrow> 'a list option" where
  "walk_bwd h None k = Some []"
| "walk_bwd h (Some a) 0 = None"
| "walk_bwd h (Some a) (Suc k) =
     do { nd \<leftarrow> deref h (Some a); xs \<leftarrow> walk_bwd h (node_prev nd) k; Some (node_t nd # xs) }"

definition list_elems :: "'a llist \<Rightarrow> 'a list option" where
  "list_elems l = walk_fwd (nodes l) (head l) (length (nodes l))"

definition list_elems_backward :: "'a llist \<Rightarrow> 'a list option" where
  "list_elems_backward l = walk_bwd (nodes l) (tail l) (length (nodes l))"

text \<open>The values stored at a sequence of addresses.\<close>

definition vals :: "'a heap \<Rightarrow> nat list \<Rightarrow> 'a list" where
  "vals h as = map (\<lambda>a. node_t (the (deref h (Some a)))) as"

text \<open>The iterator obtained from \<open>p\<close> by \<open>k\<close> increments (\<^verbatim>\<open>++it\<close> reads \<^verbatim>\<open>n->next\<close>).\<close>

fun advance :: "'a heap \<Rightarrow> ptr \<Rightarrow> nat \<Rightarrow> ptr option" where
  "advance h p 0 = Some p"
| "advance h p (Suc k) = do { p' \<leftarrow> get_next h p; advance h p' k }"

text \<open>A well-formed list object that holds the sequence \<open>xs\<close>.\<close>

definition list_rep :: "'a llist \<Rightarrow> 'a list \<Rightarrow> bool" where
  "list_rep l xs = (list_inv l \<and> list_elems l = Some xs)"

text \<open>
  Two list objects used as examples: the lists \<open>[10, 20, 30]\<close> and \<open>[1, 2]\<close> of \<^verbatim>\<open>int\<close>, as
  \<^verbatim>\<open>push_back\<close> builds them in an empty heap.
\<close>

abbreviation (input) list_10_20_30 :: "int llist" where
  "list_10_20_30 \<equiv>
     \<lparr>nodes = [Some \<lparr>node_t = 10, node_prev = None, node_next = Some 1\<rparr>,
               Some \<lparr>node_t = 20, node_prev = Some 0, node_next = Some 2\<rparr>,
               Some \<lparr>node_t = 30, node_prev = Some 1, node_next = None\<rparr>],
      head = Some 0, tail = Some 2, list_sz = 3\<rparr>"

abbreviation (input) list_1_2 :: "int llist" where
  "list_1_2 \<equiv>
     \<lparr>nodes = [Some \<lparr>node_t = 1, node_prev = None, node_next = Some 1\<rparr>,
               Some \<lparr>node_t = 2, node_prev = Some 0, node_next = None\<rparr>],
      head = Some 0, tail = Some 1, list_sz = 2\<rparr>"

section \<open>Properties of the vector operations\<close>

lemma length_new_array [simp]: "length (new_array n) = n"
  by (simp add: new_array_def)

lemma nth_new_array [simp]: "k < n \<Longrightarrow> new_array n ! k = default"
  by (simp add: new_array_def)

lemma copy_loop_Some:
  "n \<le> length src \<Longrightarrow> n \<le> length dst \<Longrightarrow>
   copy_loop src dst i n =
     Some (map (\<lambda>k. if i \<le> k \<and> k < n then src ! k else dst ! k) [0..<length dst])"
proof (induction src dst i n rule: copy_loop.induct)
  case (1 src dst i n)
  show ?case
  proof (cases "i < n")
    case True
    let ?d = "dst[i := src ! i]"
    have "copy_loop src dst i n = copy_loop src ?d (i + 1) n"
      using True 1(2,3) by (simp add: copy_loop.simps [of src dst i n] rd_def wr_def)
    also have "\<dots> = Some (map (\<lambda>k. if i + 1 \<le> k \<and> k < n then src ! k else ?d ! k) [0..<length ?d])"
      using True 1(2,3) by (intro 1(1)) (auto simp: rd_def wr_def)
    also have "map (\<lambda>k. if i + 1 \<le> k \<and> k < n then src ! k else ?d ! k) [0..<length ?d]
             = map (\<lambda>k. if i \<le> k \<and> k < n then src ! k else dst ! k) [0..<length dst]"
      using True by (auto simp: nth_list_update) (metis le_antisym not_less_eq_eq)
    finally show ?thesis .
  next
    case False
    then have "map (\<lambda>k. if i \<le> k \<and> k < n then src ! k else dst ! k) [0..<length dst] = dst"
      by (intro nth_equalityI) auto
    with False show ?thesis by (simp add: copy_loop.simps [of src dst i n])
  qed
qed

lemma copy_loop_0:
  assumes "n \<le> length src" "n \<le> length dst"
  shows "copy_loop src dst 0 n = Some (take n src @ drop n dst)"
proof -
  have "map (\<lambda>k. if 0 \<le> k \<and> k < n then src ! k else dst ! k) [0..<length dst] = take n src @ drop n dst"
    using assms by (auto intro!: nth_equalityI simp: nth_append)
  then show ?thesis using copy_loop_Some [OF assms, of 0] by simp
qed

lemma fill_loop_Some:
  "n \<le> length a \<Longrightarrow>
   fill_loop a i n val = Some (map (\<lambda>k. if i \<le> k \<and> k < n then val else a ! k) [0..<length a])"
proof (induction a i n val rule: fill_loop.induct)
  case (1 a i n val)
  show ?case
  proof (cases "i < n")
    case True
    let ?d = "a[i := val]"
    have "fill_loop a i n val = fill_loop ?d (i + 1) n val"
      using True 1(2) by (simp add: fill_loop.simps [of a i n val] wr_def)
    also have "\<dots> = Some (map (\<lambda>k. if i + 1 \<le> k \<and> k < n then val else ?d ! k) [0..<length ?d])"
      using True 1(2) by (intro 1(1)) (auto simp: wr_def)
    also have "map (\<lambda>k. if i + 1 \<le> k \<and> k < n then val else ?d ! k) [0..<length ?d]
             = map (\<lambda>k. if i \<le> k \<and> k < n then val else a ! k) [0..<length a]"
      using True by (auto simp: nth_list_update)
    finally show ?thesis .
  next
    case False
    then have "map (\<lambda>k. if i \<le> k \<and> k < n then val else a ! k) [0..<length a] = a"
      by (intro nth_equalityI) auto
    with False show ?thesis by (simp add: fill_loop.simps [of a i n val])
  qed
qed

lemma fill_loop_0:
  assumes "n \<le> length a"
  shows "fill_loop a 0 n val = Some (replicate n val @ drop n a)"
proof -
  have "map (\<lambda>k. if 0 \<le> k \<and> k < n then val else a ! k) [0..<length a] = replicate n val @ drop n a"
    using assms by (auto intro!: nth_equalityI simp: nth_append)
  then show ?thesis using fill_loop_Some [OF assms, of 0] by simp
qed

lemma shift_loop_Some:
  "n < length a \<Longrightarrow> \<exists>a'. shift_loop a j n = Some a' \<and> length a' = length a"
proof (induction a j n rule: shift_loop.induct)
  case (1 a j n)
  show ?case
  proof (cases "j < n")
    case True
    have "shift_loop a j n = shift_loop (a[j := a ! (j + 1)]) (j + 1) n"
      using True 1(2) by (simp add: shift_loop.simps [of a j n] rd_def wr_def)
    moreover have "\<exists>a'. shift_loop (a[j := a ! (j + 1)]) (j + 1) n = Some a' \<and> length a' = length (a[j := a ! (j + 1)])"
      using True 1(2) by (intro 1(1)) (auto simp: rd_def wr_def)
    ultimately show ?thesis by simp
  next
    case False
    then show ?thesis by (simp add: shift_loop.simps [of a j n])
  qed
qed

lemma fill_loop_None:
  "length a < n \<Longrightarrow> i \<le> length a \<Longrightarrow> fill_loop a i n val = None"
proof (induction a i n val rule: fill_loop.induct)
  case (1 a i n val)
  show ?case
  proof (cases "i < length a")
    case True
    with 1 show ?thesis by (subst fill_loop.simps) (simp add: wr_def)
  next
    case False
    with 1(2,3) show ?thesis by (subst fill_loop.simps) (simp add: wr_def)
  qed
qed

lemma vector_new_Some:
  assumes "n < 2 ^ 63"
  shows "vector_new n val =
     Some \<lparr>t = replicate n val @ new_array (max 10 (2 * n) - n), cap = max 10 (2 * n), sz = n\<rparr>"
proof -
  have "(2 * n) mod 2 ^ 64 = 2 * n" using assms by simp
  then show ?thesis
    by (simp add: vector_new_def fill_loop_0 new_array_def Let_def)
qed

lemma vector_new_wrap:
  assumes "2 ^ 63 \<le> n" and "n < 2 ^ 64"
  shows "vector_new n (val :: 'a::default) = None"
proof -
  have "(2 * n) mod 2 ^ 64 = 2 * n - 2 ^ 64"
    using assms by (simp add: mod_if)
  then have "max 10 ((2 * n) mod 2 ^ 64) < n" using assms by simp
  then have "fill_loop (new_array (max 10 ((2 * n) mod 2 ^ 64)) :: 'a list) 0 n val = None"
    by (intro fill_loop_None) simp_all
  then show ?thesis by (simp add: vector_new_def Let_def)
qed

lemma reserve_freed_Some:
  assumes "vector_inv v"
  shows "reserve_freed v c =
     Some (if c > cap v then (v\<lparr>t := elems v @ new_array (c - sz v), cap := c\<rparr>, True)
           else (v, False))"
  using assms by (simp add: reserve_freed_def vector_inv_def elems_def copy_loop_0 new_array_def)

lemma reserve_Some:
  assumes "vector_inv v"
  shows "reserve v c = Some (if c > cap v then v\<lparr>t := elems v @ new_array (c - sz v), cap := c\<rparr> else v)"
  using assms by (simp add: reserve_def reserve_freed_Some)

lemma push_back_Some:
  assumes "vector_inv v"
  shows "push_back v (Val x) = Some
     (if sz v = cap v
      then \<lparr>t = elems v @ x # new_array (cap v - 1), cap = 2 * cap v, sz = sz v + 1\<rparr>
      else v\<lparr>t := (t v)[sz v := x], sz := sz v + 1\<rparr>)"
proof (cases "sz v = cap v")
  case True
  have "(replicate (cap v) default)[0 := x] = x # replicate (cap v - 1) (default :: 'a)"
    using assms by (cases "cap v") (auto simp: vector_inv_def)
  with True assms show ?thesis
    by (simp add: push_back_def reserve_freed_Some read_arg_def vector_inv_def elems_def wr_def
        new_array_def list_update_append)
next
  case False
  with assms show ?thesis
    by (simp add: push_back_def read_arg_def vector_inv_def wr_def)
qed

lemma push_back_Own:
  assumes "vector_inv v" and "sz v < cap v" and "i < cap v"
  shows "push_back v (Own i) = Some (v\<lparr>t := (t v)[sz v := t v ! i], sz := sz v + 1\<rparr>)"
  using assms by (simp add: push_back_def read_arg_def rd_def vector_inv_def wr_def)

lemma push_back_Own_full:
  assumes "sz v = cap v" and "0 < cap v"
  shows "push_back v (Own i) = None"
  using assms
  by (simp add: push_back_def reserve_freed_def read_arg_def split: bind_splits)

lemma push_back_incremental_Own:
  assumes "vector_inv v" and "sz v < cap v" and "i < cap v"
  shows "push_back_incremental v (Own i) = Some (v\<lparr>t := (t v)[sz v := t v ! i], sz := sz v + 1\<rparr>)"
  using assms by (simp add: push_back_incremental_def read_arg_def rd_def vector_inv_def wr_def)

lemma push_back_incremental_Own_full:
  assumes "sz v = cap v"
  shows "push_back_incremental v (Own i) = None"
  using assms
  by (simp add: push_back_incremental_def reserve_freed_def read_arg_def split: bind_splits)

lemma push_back_incremental_Some:
  assumes "vector_inv v"
  shows "push_back_incremental v (Val x) = Some
     (if sz v = cap v
      then \<lparr>t = elems v @ [x], cap = cap v + 1, sz = sz v + 1\<rparr>
      else v\<lparr>t := (t v)[sz v := x], sz := sz v + 1\<rparr>)"
  using assms
  by (auto simp: push_back_incremental_def reserve_freed_Some read_arg_def vector_inv_def elems_def
      wr_def new_array_def
      list_update_append)

lemma pop_back_Some:
  assumes "vector_inv v"
  shows "pop_back v = Some
     (if sz v = 0 then v else v\<lparr>t := (t v)[sz v - 1 := default], sz := sz v - 1\<rparr>)"
  using assms by (auto simp: pop_back_def vector_empty_def vector_inv_def wr_def)

lemma push_back_props:
  assumes "vector_inv v"
  shows "\<exists>v'. push_back v (Val x) = Some v' \<and> vector_inv v' \<and> sz v' = sz v + 1 \<and>
           cap v' = (if sz v = cap v then 2 * cap v else cap v) \<and> elems v' = elems v @ [x]"
  using assms
  by (auto simp: push_back_Some vector_inv_def elems_def take_Suc_conv_app_nth)

lemma push_back_incremental_props:
  assumes "vector_inv v"
  shows "\<exists>v'. push_back_incremental v (Val x) = Some v' \<and> vector_inv v' \<and> sz v' = sz v + 1 \<and>
           cap v' = (if sz v = cap v then cap v + 1 else cap v) \<and> elems v' = elems v @ [x]"
  using assms
  by (auto simp: push_back_incremental_Some vector_inv_def elems_def take_Suc_conv_app_nth)

lemma pop_back_props:
  assumes "vector_inv v"
  shows "\<exists>v'. pop_back v = Some v' \<and> vector_inv v' \<and> sz v' = sz v - 1 \<and>
           cap v' = cap v \<and> elems v' = butlast (elems v)"
  using assms
  by (auto simp: pop_back_Some vector_inv_def elems_def butlast_take)

lemma resize_shrink_props:
  "vector_inv v \<Longrightarrow>
   \<exists>v'. resize_shrink v n = Some v' \<and> vector_inv v' \<and> sz v' = min n (sz v) \<and>
        cap v' = cap v \<and> elems v' = take n (elems v)"
proof (induction v n rule: resize_shrink.induct)
  case (1 v n)
  show ?case
  proof (cases "n < sz v")
    case True
    from pop_back_props [OF 1(2)] obtain v1 where
      v1: "pop_back v = Some v1" "vector_inv v1" "sz v1 = sz v - 1" "cap v1 = cap v"
        "elems v1 = butlast (elems v)" by blast
    from 1(1) [OF True v1(1) v1(2)] obtain v' where
      v': "resize_shrink v1 n = Some v'" "vector_inv v'" "sz v' = min n (sz v1)"
        "cap v' = cap v1" "elems v' = take n (elems v1)" by blast
    have len: "length (elems v) = sz v"
      using 1(2) by (simp add: elems_def vector_inv_def)
    have "take n (butlast (elems v)) = take n (elems v)"
      using True len by (simp add: take_butlast)
    with True v1 v' show ?thesis
      by (simp add: resize_shrink.simps [of v n] min_def)
  next
    case False
    with 1(2) show ?thesis
      by (simp add: resize_shrink.simps [of v n] elems_def vector_inv_def)
  qed
qed

lemma resize_grow_props:
  "vector_inv v \<Longrightarrow>
   \<exists>v'. resize_grow v n (Val x) = Some v' \<and> vector_inv v' \<and> sz v' = max n (sz v) \<and>
        cap v \<le> cap v' \<and> elems v' = elems v @ replicate (n - sz v) x"
proof (induction v n "Val x" rule: resize_grow.induct)
  case (1 v n)
  show ?case
  proof (cases "sz v < n")
    case True
    from push_back_props [OF 1(2)] obtain v1 where
      v1: "push_back v (Val x) = Some v1" "vector_inv v1" "sz v1 = sz v + 1"
        "cap v1 = (if sz v = cap v then 2 * cap v else cap v)"
        "elems v1 = elems v @ [x]" by blast
    from 1(1) [OF True v1(1) v1(2)] obtain v' where
      v': "resize_grow v1 n (Val x) = Some v'" "vector_inv v'" "sz v' = max n (sz v1)"
        "cap v1 \<le> cap v'" "elems v' = elems v1 @ replicate (n - sz v1) x" by blast
    have "[x] @ replicate (n - sz v1) x = replicate (n - sz v) x"
      using True v1(3) by (cases "n - sz v") auto
    moreover have "cap v \<le> cap v1" using v1(4) by simp
    ultimately show ?thesis using True v1 v'
      by (auto simp: resize_grow.simps [of v n "Val x"] max_def)
  next
    case False
    with 1(2) show ?thesis
      by (simp add: resize_grow.simps [of v n "Val x"] max_def)
  qed
qed

lemma resize_props:
  assumes "vector_inv v"
  shows "\<exists>v'. resize v n (Val x) = Some v' \<and> vector_inv v' \<and> sz v' = n \<and> cap v \<le> cap v' \<and>
           elems v' = take n (elems v) @ replicate (n - sz v) x"
proof -
  from resize_shrink_props [OF assms, of n] obtain v1 where
    v1: "resize_shrink v n = Some v1" "vector_inv v1" "sz v1 = min n (sz v)"
      "cap v1 = cap v" "elems v1 = take n (elems v)" by blast
  from resize_grow_props [OF v1(2), of n x] obtain v' where
    v': "resize_grow v1 n (Val x) = Some v'" "vector_inv v'" "sz v' = max n (sz v1)"
      "cap v1 \<le> cap v'" "elems v' = elems v1 @ replicate (n - sz v1) x" by blast
  have "n - sz v1 = n - sz v" using v1(3) by (simp add: min_def)
  with v1 v' show ?thesis
    by (auto simp: resize_def min_def max_def)
qed

lemma clear_loop_props:
  "vector_inv v \<Longrightarrow>
   \<exists>v'. clear_loop i v = Some v' \<and> vector_inv v' \<and> sz v' = sz v - nat i \<and> cap v' = cap v"
proof (induction i v rule: clear_loop.induct)
  case (1 i v)
  show ?case
  proof (cases "0 < i")
    case True
    from pop_back_props [OF 1(2)] obtain v1 where
      v1: "pop_back v = Some v1" "vector_inv v1" "sz v1 = sz v - 1" "cap v1 = cap v" by blast
    from 1(1) [OF True v1(1) v1(2)] obtain v' where
      v': "clear_loop (i - 1) v1 = Some v'" "vector_inv v'" "sz v' = sz v1 - nat (i - 1)"
        "cap v' = cap v1" by blast
    have "sz v - 1 - nat (i - 1) = sz v - nat i" using True by arith
    with True v1 v' show ?thesis
      by (simp add: clear_loop.simps [of i v])
  next
    case False
    with 1(2) show ?thesis by (simp add: clear_loop.simps [of i v])
  qed
qed

lemma clear_props:
  assumes "vector_inv v"
  shows "\<exists>v'. clear v = Some v' \<and> vector_inv v' \<and> cap v' = cap v \<and> sz v' \<le> sz v"
  using clear_loop_props [OF assms, of "sint (word_of_nat (sz v) :: 32 word)"]
  by (auto simp: clear_def)

lemma clear_small:
  assumes "vector_inv v" "sz v < 2 ^ 31"
  shows "\<exists>v'. clear v = Some v' \<and> sz v' = 0"
proof -
  have "sint (word_of_nat (sz v) :: 32 word) = int (sz v)"
    using assms(2) by (simp add: signed_of_nat signed_take_bit_int_eq_self)
  with clear_loop_props [OF assms(1), of "sint (word_of_nat (sz v) :: 32 word)"]
  show ?thesis by (auto simp: clear_def)
qed

lemma erase_find_Some: "indx \<le> i \<Longrightarrow> erase_find i tmp indx = Some (tmp + (i - indx))"
proof (induction i tmp indx rule: erase_find.induct)
  case (1 i tmp indx)
  show ?case
  proof (cases "i = indx")
    case True
    then show ?thesis by (subst erase_find.simps) simp
  next
    case False
    with 1 show ?thesis by (subst erase_find.simps) simp
  qed
qed

lemma vector_erase_props:
  assumes "vector_inv v"
  shows "\<exists>v'. vector_erase v i = Some (v', i) \<and> vector_inv v' \<and> cap v' = cap v \<and> sz v' = sz v - 1"
proof (cases "sz v = 0")
  case True
  with assms show ?thesis by (simp add: vector_erase_def vector_empty_def)
next
  case False
  have "cap v - 1 < length (t v)" using assms by (simp add: vector_inv_def)
  from shift_loop_Some [OF this, of i] obtain a where
    "shift_loop (t v) i (cap v - 1) = Some a" "length a = length (t v)" by blast
  with False assms show ?thesis
    by (auto simp: vector_erase_def vector_empty_def erase_find_Some vector_inv_def)
qed

lemma insert_loop_Some:
  "vector_inv v \<Longrightarrow> sz v < cap v \<Longrightarrow> i \<le> k \<Longrightarrow> k \<le> sz v \<Longrightarrow>
   insert_loop i v k k = Some (if i < k then v\<lparr>t := (t v)[sz v := t v ! i]\<rparr> else v, i)"
proof (induction k arbitrary: v)
  case 0
  then show ?case by (subst insert_loop.simps) simp
next
  case (Suc k)
  show ?case
  proof (cases "i = Suc k")
    case True
    then show ?thesis by (subst insert_loop.simps) simp
  next
    case False
    let ?v = "v\<lparr>t := (t v)[sz v := t v ! k]\<rparr>"
    have rd: "rd (t v) k = Some (t v ! k)"
      using Suc.prems by (simp add: rd_def vector_inv_def)
    have pb: "push_back v (Own k) = Some (v\<lparr>t := (t v)[sz v := t v ! k], sz := sz v + 1\<rparr>)"
      using Suc.prems by (simp add: push_back_Own)
    have step: "insert_loop i v (Suc k) (Suc k) = insert_loop i ?v k k"
      using False by (simp add: insert_loop.simps [of i v "Suc k" "Suc k"] rd pb)
    have inv: "vector_inv ?v" "sz ?v < cap ?v" "i \<le> k" "k \<le> sz ?v"
      using Suc.prems False by (auto simp: vector_inv_def)
    have "insert_loop i ?v k k = Some (if i < k then ?v\<lparr>t := (t ?v)[sz ?v := t ?v ! i]\<rparr> else ?v, i)"
      by (rule Suc.IH [OF inv])
    moreover have "i < k \<Longrightarrow> t ?v ! i = t v ! i"
      using Suc.prems by simp
    ultimately show ?thesis using step False Suc.prems
      by (cases "i < k") (auto simp: le_Suc_eq)
  qed
qed

lemma insert_loop_None:
  "k < i \<Longrightarrow> insert_loop i v k k = None"
proof (induction k arbitrary: v)
  case 0
  then show ?case by (simp add: insert_loop.simps [of i v 0 0])
next
  case (Suc k)
  then show ?case
    by (simp add: insert_loop.simps [of i v "Suc k" "Suc k"] split: bind_splits)
qed

lemma vector_insert_Some:
  assumes "vector_inv v" "sz v < cap v" "i \<le> sz v"
  shows "vector_insert v i val =
     Some (v\<lparr>t := (if i < sz v then (t v)[sz v := t v ! i] else t v)[i := val], sz := sz v + 1\<rparr>, i)"
  using assms insert_loop_Some [OF assms(1,2,3) le_refl]
  by (auto simp: vector_insert_def wr_def vector_inv_def)

lemma vector_insert_None:
  assumes "sz v < cap v" "sz v < i"
  shows "vector_insert v i val = None"
  using assms by (simp add: vector_insert_def insert_loop_None)

lemma vector_assign_Some:
  assumes "vector_inv w"
  shows "vector_assign v w False = Some \<lparr>t = elems w @ new_array (cap w - sz w), cap = cap w, sz = sz w\<rparr>"
  using assms by (simp add: vector_assign_def copy_loop_0 vector_inv_def elems_def new_array_def)

lemma vector_copy_Some:
  assumes "vector_inv v"
  shows "vector_copy v = Some v"
  using assms by (simp add: vector_copy_def copy_loop_0 vector_inv_def)

lemma vector_new_inv:
  assumes "n < 2 ^ 63"
  shows "\<exists>v. vector_new n val = Some v \<and> vector_inv v \<and> sz v = n \<and> cap v = max 10 (2 * n) \<and>
       elems v = replicate n val"
  using assms by (auto simp: vector_new_Some vector_inv_def elems_def)

lemma vector_insert_elems:
  assumes "vector_inv v" and "sz v < cap v" and "p \<le> sz v"
  shows "\<exists>v'. vector_insert v p val = Some (v', p) \<and> vector_inv v' \<and> sz v' = sz v + 1 \<and>
           cap v' = cap v \<and>
           elems v' = (if p < sz v
                       then take p (elems v) @ val # drop (Suc p) (elems v) @ [elems v ! p]
                       else elems v @ [val])"
proof -
  have len: "length (t v) = cap v" using assms(1) by (simp add: vector_inv_def)
  define xs where "xs = elems v"
  have lxs: "length xs = sz v" using assms(2) len by (simp add: xs_def elems_def)
  obtain y ys where rest: "drop (sz v) (t v) = y # ys"
    using assms(2) len by (cases "drop (sz v) (t v)") auto
  have tv: "t v = xs @ y # ys"
    using rest by (simp add: xs_def elems_def flip: rest)
  show ?thesis
  proof (cases "p < sz v")
    case True
    have sz: "sz v = length xs" using lxs by simp
    have "p < length xs" using True lxs by simp
    then have "take (Suc (length xs)) ((xs @ y # ys)[length xs := (xs @ y # ys) ! p, p := val])
                 = xs[p := val] @ [xs ! p]"
      by (simp add: list_update_append nth_append)
    then have "take (Suc (sz v)) ((t v)[sz v := t v ! p, p := val]) = xs[p := val] @ [xs ! p]"
      by (simp only: tv sz)
    also have "xs[p := val] = take p xs @ val # drop (Suc p) xs"
      using True lxs by (simp add: upd_conv_take_nth_drop)
    finally show ?thesis using True assms
      by (simp add: vector_insert_Some elems_def [of "_\<lparr>t := _, sz := _\<rparr>"] vector_inv_def
          flip: xs_def)
  next
    case False
    with assms(3) have p: "p = sz v" by simp
    have sz: "sz v = length xs" using lxs by simp
    have "take (Suc (length xs)) ((xs @ y # ys)[length xs := val]) = xs @ [val]"
      by (simp add: list_update_append)
    then have "take (Suc (sz v)) ((t v)[sz v := val]) = xs @ [val]"
      by (simp only: tv sz)
    with p assms show ?thesis
      by (simp add: vector_insert_Some elems_def [of "_\<lparr>t := _, sz := _\<rparr>"] vector_inv_def
          flip: xs_def)
  qed
qed

lemma vector_insert_near_end:
  assumes "vector_inv v" and "sz v < cap v" and "p \<le> sz v" and "sz v \<le> Suc p"
  shows "\<exists>v'. vector_insert v p val = Some (v', p) \<and>
           elems v' = take p (elems v) @ val # drop p (elems v)"
proof -
  have len: "length (elems v) = sz v" using assms(1) by (simp add: elems_def vector_inv_def)
  from vector_insert_elems [OF assms(1,2,3), of val] obtain v' where
    v': "vector_insert v p val = Some (v', p)"
      "elems v' = (if p < sz v
                       then take p (elems v) @ val # drop (Suc p) (elems v) @ [elems v ! p]
                       else elems v @ [val])" by blast
  show ?thesis
  proof (cases "p < sz v")
    case True
    with assms(4) have "Suc p = sz v" by simp
    then have "drop (Suc p) (elems v) = []" "drop p (elems v) = [elems v ! p]"
      using len by (simp_all flip: Cons_nth_drop_Suc)
    with v' True show ?thesis by simp
  next
    case False
    with assms(3) len v' show ?thesis by simp
  qed
qed

lemma run_ops_props:
  "vector_inv v \<Longrightarrow>
   \<exists>v'. run_ops v ops = Some v' \<and> vector_inv v' \<and>
        int (sz v') = int (sz v) + int (pushes ops) - int (pops ops) + int (pops_on_empty (sz v) ops)"
proof (induction ops arbitrary: v)
  case Nil
  then show ?case by simp
next
  case (Cons a ops)
  show ?case
  proof (cases a)
    case (Push x)
    from push_back_props [OF Cons.prems, of x] obtain v1 where
      v1: "push_back v (Val x) = Some v1" "vector_inv v1" "sz v1 = sz v + 1" by blast
    from Cons.IH [OF v1(2)] v1 Push show ?thesis by auto
  next
    case Pop
    from pop_back_props [OF Cons.prems] obtain v1 where
      v1: "pop_back v = Some v1" "vector_inv v1" "sz v1 = sz v - 1" by blast
    from Cons.IH [OF v1(2)] v1 Pop show ?thesis by (cases "sz v = 0") auto
  qed
qed

text \<open>
  Growth on a full vector when the argument is a value held outside the vector: the capacity
  doubles, or grows by one, and the value is stored at the index that was the size.
\<close>

lemma push_back_growth_Val:
  assumes "vector_inv v" and "vector_size v = vector_capacity v"
  shows "(\<exists>v'. push_back v (Val x) = Some v' \<and> vector_capacity v' = 2 * vector_capacity v \<and>
               vector_size v' = vector_size v + 1 \<and> rd (t v') (vector_size v) = Some x \<and>
               elems v' = elems v @ [x]) \<and>
         (\<exists>v'. push_back_incremental v (Val x) = Some v' \<and>
               vector_capacity v' = vector_capacity v + 1 \<and>
               vector_size v' = vector_size v + 1 \<and> rd (t v') (vector_size v) = Some x \<and>
               elems v' = elems v @ [x])"
  using assms
  by (simp add: push_back_Some push_back_incremental_Some vector_size_def vector_capacity_def rd_def
      elems_def vector_inv_def nth_append)

lemma push_back_Own_not_full:
  assumes "vector_inv v" and "sz v < cap v" and "i < sz v"
  shows "\<exists>v'. push_back v (Own i) = Some v' \<and> vector_inv v' \<and> cap v' = cap v \<and>
           elems v' = elems v @ [elems v ! i]"
  using assms
  by (auto simp: push_back_Own vector_inv_def elems_def take_Suc_conv_app_nth)

section \<open>Properties of the list operations\<close>

lemma deref_Some_iff: "deref h (Some a) = Some n \<longleftrightarrow> a < length h \<and> h ! a = Some n"
  by (simp add: deref_def)

lemma deref_None [simp]: "deref h None = None"
  by (simp add: deref_def)

lemma deref_append: "deref h p = Some n \<Longrightarrow> deref (h @ cs) p = Some n"
  by (auto simp: deref_def nth_append split: option.splits if_splits)

lemma deref_new: "deref (h @ [c]) (Some (length h)) = c"
  by (simp add: deref_def)

lemma deref_update:
  "deref (h[a := c]) (Some b) = (if b = a \<and> a < length h then c else deref h (Some b))"
  by (auto simp: deref_def)

lemma dpath_addr: "dpath h pv x as y \<Longrightarrow> a \<in> set as \<Longrightarrow> \<exists>n. deref h (Some a) = Some n"
  by (induction as arbitrary: pv x) (auto split: option.splits)

lemma dpath_heap_append: "dpath h pv x as y \<Longrightarrow> dpath (h @ cs) pv x as y"
  by (induction as arbitrary: pv x) (auto split: option.splits simp: deref_append)

lemma dpath_update: "a \<notin> set as \<Longrightarrow> dpath (h[a := c]) pv x as y = dpath h pv x as y"
  by (induction as arbitrary: pv x) (auto split: option.splits simp: deref_update)

lemma last_ptr_simps [simp]:
  "last_ptr pv [] = pv"
  "last_ptr pv (a # as) = last_ptr (Some a) as"
  "last_ptr pv (as @ [a]) = Some a"
  by (simp_all add: last_ptr_def)

lemma dpath_app:
  "dpath h pv x (as @ bs) z = (\<exists>y. dpath h pv x as y \<and> dpath h (last_ptr pv as) y bs z)"
  by (induction as arbitrary: pv x) (auto split: option.splits)

lemma dpath_unique: "dpath h pv x as None \<Longrightarrow> dpath h pv' x bs None \<Longrightarrow> as = bs"
proof (induction as arbitrary: pv pv' x bs)
  case Nil
  then show ?case by (cases bs) auto
next
  case (Cons a as)
  then show ?case by (cases bs) (auto split: option.splits)
qed

lemma dpath_hd_notin:
  assumes "dpath h pv x (a # as) None"
  shows "a \<notin> set as"
proof
  assume "a \<in> set as"
  then obtain bs cs where as: "as = bs @ a # cs" by (auto simp: in_set_conv_decomp)
  from assms have 1: "dpath h pv (Some a) ((a # bs) @ a # cs) None"
    unfolding as by (auto split: option.splits)
  then obtain y where "dpath h pv (Some a) (a # bs) y" "dpath h (last_ptr pv (a # bs)) y (a # cs) None"
    unfolding dpath_app by blast
  then have "dpath h (last_ptr pv (a # bs)) (Some a) (a # cs) None" by (cases y) auto
  from dpath_unique [OF this 1] show False by simp
qed

lemma dpath_tl: "dpath h pv x (a # as) y \<Longrightarrow> \<exists>x'. dpath h (Some a) x' as y"
  by (auto split: option.splits)

lemma dpath_distinct: "dpath h pv x as None \<Longrightarrow> distinct as"
proof (induction as arbitrary: pv x)
  case Nil
  then show ?case by simp
next
  case (Cons a as)
  from dpath_hd_notin [OF Cons.prems] have "a \<notin> set as" .
  moreover from dpath_tl [OF Cons.prems] Cons.IH have "distinct as" by blast
  ultimately show ?case by simp
qed

lemma follow_length: "follow h p n = Some as \<Longrightarrow> length as = n"
  by (induction n arbitrary: p as) (auto split: option.splits bind_splits)

lemma dpath_follow: "dpath h pv x as y \<Longrightarrow> follow h x (length as) = Some as"
  by (induction as arbitrary: pv x) (auto split: option.splits)

lemma list_inv_iff:
  "list_inv l \<longleftrightarrow> (\<exists>as. dll (nodes l) (head l) (tail l) as \<and> length as = list_sz l)"
proof
  assume "list_inv l"
  then obtain as where "follow (nodes l) (head l) (list_sz l) = Some as"
    "dll (nodes l) (head l) (tail l) as"
    by (auto simp: list_inv_def split: option.splits)
  then show "\<exists>as. dll (nodes l) (head l) (tail l) as \<and> length as = list_sz l"
    using follow_length by blast
next
  assume "\<exists>as. dll (nodes l) (head l) (tail l) as \<and> length as = list_sz l"
  then obtain as where as: "dll (nodes l) (head l) (tail l) as" "length as = list_sz l" by blast
  then have "follow (nodes l) (head l) (list_sz l) = Some as"
    using dpath_follow [of "nodes l" None "head l" as None] by (simp add: dll_def)
  with as show "list_inv l" by (simp add: list_inv_def)
qed

lemma dpath_snoc:
  "dpath h pv x (as @ [a]) z \<longleftrightarrow>
     dpath h pv x as (Some a) \<and>
     (\<exists>n. deref h (Some a) = Some n \<and> node_prev n = last_ptr pv as \<and> node_next n = z)"
  by (auto simp: dpath_app split: option.splits)

lemma dpath_lt: "dpath h pv x as y \<Longrightarrow> a \<in> set as \<Longrightarrow> a < length h"
  using dpath_addr [of h pv x as y a] by (auto simp: deref_Some_iff)

lemma vals_heap_append: "\<forall>a\<in>set as. a < length h \<Longrightarrow> vals (h @ cs) as = vals h as"
  by (auto simp: vals_def deref_def nth_append)

lemma vals_update: "b \<notin> set as \<Longrightarrow> vals (h[b := c]) as = vals h as"
  by (auto simp: vals_def deref_update)

lemma vals_append [simp]: "vals h (as @ bs) = vals h as @ vals h bs"
  by (simp add: vals_def)

lemma vals_Cons [simp]: "vals h (a # as) = node_t (the (deref h (Some a))) # vals h as"
  by (simp add: vals_def)

lemma vals_Nil [simp]: "vals h [] = []"
  by (simp add: vals_def)

lemma dll_Nil [simp]: "dll h x y [] \<longleftrightarrow> x = None \<and> y = None"
  by (auto simp: dll_def)

lemma dll_empty_iff:
  assumes "dll h x y as"
  shows "as = [] \<longleftrightarrow> x = None" and "as = [] \<longleftrightarrow> y = None"
  using assms by (cases as; auto simp: dll_def last_ptr_def)+

lemma last_ptr_append [simp]: "last_ptr pv (as @ bs) = last_ptr (last_ptr pv as) bs"
  by (simp add: last_ptr_def)

lemma dll_distinct: "dll h x y as \<Longrightarrow> distinct as"
  unfolding dll_def using dpath_distinct by blast

lemma list_push_back_dll:
  assumes "dll (nodes l) (head l) (tail l) as" and "length as = list_sz l"
  shows "\<exists>l'. list_push_back l v = Some l' \<and>
           dll (nodes l') (head l') (tail l') (as @ [length (nodes l)]) \<and>
           list_sz l' = list_sz l + 1 \<and>
           vals (nodes l') (as @ [length (nodes l)]) = vals (nodes l) as @ [v] \<and>
           length (nodes l') = length (nodes l) + 1"
proof (cases as rule: rev_cases)
  case Nil
  with assms show ?thesis
    by (simp add: list_push_back_def list_empty_def new_node_def dll_def deref_new)
next
  case (snoc bs b)
  let ?h = "nodes l" and ?m = "length (nodes l)"
  from assms snoc have ne: "\<not> list_empty l" and tl: "tail l = Some b"
    by (auto simp: list_empty_def dll_def)
  from assms(1) snoc obtain nb where
    bs: "dpath ?h None (head l) bs (Some b)" and
    nb: "deref ?h (Some b) = Some nb" "node_prev nb = last_ptr None bs" "node_next nb = None"
    by (auto simp: dll_def dpath_snoc)
  from dll_distinct [OF assms(1)] snoc have nin: "b \<notin> set bs" by simp
  have blt: "b < ?m" using nb(1) by (simp add: deref_Some_iff)
  have lt: "\<forall>a\<in>set bs. a < ?m" using dpath_lt [OF bs] by blast
  let ?h1 = "?h @ [Some \<lparr>node_t = v, node_prev = Some b, node_next = None\<rparr>]"
  let ?h2 = "?h1[b := Some (nb\<lparr>node_next := Some ?m\<rparr>)]"
  have pb: "list_push_back l v = Some (l\<lparr>nodes := ?h2, tail := Some ?m, list_sz := list_sz l + 1\<rparr>)"
    using ne tl nb(1) by (simp add: list_push_back_def new_node_def set_next_def deref_append)
  have "dpath ?h2 None (head l) bs (Some b)"
    using bs nin by (simp add: dpath_update dpath_heap_append)
  moreover have "deref ?h2 (Some b) = Some (nb\<lparr>node_next := Some ?m\<rparr>)"
    using blt by (simp add: deref_update)
  moreover have "deref ?h2 (Some ?m) = Some \<lparr>node_t = v, node_prev = Some b, node_next = None\<rparr>"
    using blt by (simp add: deref_update deref_new)
  ultimately have "dll ?h2 (head l) (Some ?m) (as @ [?m])"
    using nb snoc by (simp add: dll_def dpath_app)
  moreover have "vals ?h2 (as @ [?m]) = vals ?h as @ [v]"
    using snoc nin blt lt nb(1) by (simp add: vals_update vals_heap_append deref_update deref_new deref_append)
  ultimately show ?thesis using pb by simp
qed

lemma list_pop_back_dll:
  assumes "dll (nodes l) (head l) (tail l) as" and "length as = list_sz l"
  shows "\<exists>l'. list_pop_back l = Some l' \<and>
           dll (nodes l') (head l') (tail l') (butlast as) \<and>
           list_sz l' = list_sz l - 1 \<and>
           vals (nodes l') (butlast as) = butlast (vals (nodes l) as) \<and>
           length (nodes l') = length (nodes l)"
proof (cases as rule: rev_cases)
  case Nil
  with assms show ?thesis by (simp add: list_pop_back_def list_empty_def)
next
  case (snoc bs b)
  let ?h = "nodes l"
  from assms snoc have ne: "\<not> list_empty l" and tl: "tail l = Some b"
    by (auto simp: list_empty_def dll_def)
  from assms(1) snoc obtain nb where
    bs: "dpath ?h None (head l) bs (Some b)" and
    nb: "deref ?h (Some b) = Some nb" "node_prev nb = last_ptr None bs" "node_next nb = None"
    by (auto simp: dll_def dpath_snoc)
  from dll_distinct [OF assms(1)] snoc have nin: "b \<notin> set bs" "distinct bs" by simp_all
  show ?thesis
  proof (cases bs rule: rev_cases)
    case Nil
    with snoc assms bs tl nb(1) show ?thesis
      by (simp add: list_pop_back_def list_empty_def delete_node_def)
  next
    case (snoc cs c)
    from bs snoc obtain nc where
      cs: "dpath ?h None (head l) cs (Some c)" and
      nc: "deref ?h (Some c) = Some nc" "node_prev nc = last_ptr None cs" "node_next nc = Some b"
      by (auto simp: dpath_snoc)
    from nin snoc have d: "c \<noteq> b" "b \<notin> set cs" "c \<notin> set cs" by auto
    have blt: "b < length ?h" and clt: "c < length ?h"
      using nb(1) nc(1) by (simp_all add: deref_Some_iff)
    let ?h2 = "?h[b := None, c := Some (nc\<lparr>node_next := None\<rparr>)]"
    have sz: "list_sz l \<noteq> 1" using assms(2) \<open>as = bs @ [b]\<close> snoc by auto
    have pb: "list_pop_back l = Some (l\<lparr>nodes := ?h2, tail := Some c, list_sz := list_sz l - 1\<rparr>)"
      using ne sz tl nb nc d snoc
      by (simp add: list_pop_back_def get_prev_def get_next_def delete_node_def set_next_def
          deref_update)
    have "dpath ?h2 None (head l) cs (Some c)"
      using cs d by (simp add: dpath_update)
    moreover have "deref ?h2 (Some c) = Some (nc\<lparr>node_next := None\<rparr>)"
      using clt by (simp add: deref_update)
    ultimately have "dll ?h2 (head l) (Some c) (cs @ [c])"
      using nc by (simp add: dll_def dpath_snoc)
    moreover have "vals ?h2 (cs @ [c]) = butlast (vals ?h as)"
      using snoc \<open>as = bs @ [b]\<close> d clt nc(1)
      by (simp add: vals_update deref_update butlast_append)
    moreover have "butlast as = cs @ [c]"
      using snoc \<open>as = bs @ [b]\<close> by (simp add: butlast_append)
    ultimately show ?thesis using pb by simp
  qed
qed

lemma list_push_front_dll:
  assumes "dll (nodes l) (head l) (tail l) as" and "length as = list_sz l"
  shows "\<exists>l'. list_push_front l v = Some l' \<and>
           dll (nodes l') (head l') (tail l') (length (nodes l) # as) \<and>
           list_sz l' = list_sz l + 1 \<and>
           vals (nodes l') (length (nodes l) # as) = v # vals (nodes l) as \<and>
           length (nodes l') = length (nodes l) + 1"
proof (cases as)
  case Nil
  with assms show ?thesis
    by (simp add: list_push_front_def list_empty_def new_node_def dll_def deref_new)
next
  case (Cons a as')
  let ?h = "nodes l" and ?m = "length (nodes l)"
  from assms Cons have ne: "\<not> list_empty l" and hd: "head l = Some a"
    by (auto simp: list_empty_def dll_def)
  from assms(1) Cons obtain na where
    na: "deref ?h (Some a) = Some na" "node_prev na = None" and
    rest: "dpath ?h (Some a) (node_next na) as' None"
    by (auto simp: dll_def split: option.splits)
  from dll_distinct [OF assms(1)] Cons have nin: "a \<notin> set as'" by simp
  have alt: "a < ?m" using na(1) by (simp add: deref_Some_iff)
  have lt: "\<forall>b\<in>set as'. b < ?m" using dpath_lt [OF rest] by blast
  let ?h1 = "?h @ [Some \<lparr>node_t = v, node_prev = None, node_next = Some a\<rparr>]"
  let ?h2 = "?h1[a := Some (na\<lparr>node_prev := Some ?m\<rparr>)]"
  have pf: "list_push_front l v = Some (l\<lparr>nodes := ?h2, head := Some ?m, list_sz := list_sz l + 1\<rparr>)"
    using ne hd na(1) by (simp add: list_push_front_def new_node_def set_prev_def deref_append)
  have "dpath ?h2 (Some a) (node_next na) as' None"
    using rest nin by (simp add: dpath_update dpath_heap_append)
  moreover have "deref ?h2 (Some a) = Some (na\<lparr>node_prev := Some ?m\<rparr>)"
    using alt by (simp add: deref_update)
  moreover have "deref ?h2 (Some ?m) = Some \<lparr>node_t = v, node_prev = None, node_next = Some a\<rparr>"
    using alt by (simp add: deref_update deref_new)
  ultimately have "dll ?h2 (Some ?m) (tail l) (?m # as)"
    using Cons assms(1) by (simp add: dll_def)
  moreover have "vals ?h2 (?m # as) = v # vals ?h as"
    using Cons nin alt lt na(1)
    by (simp add: vals_update vals_heap_append deref_update deref_new deref_append)
  ultimately show ?thesis using pf by simp
qed

lemma list_pop_front_dll:
  assumes "dll (nodes l) (head l) (tail l) as" and "length as = list_sz l"
  shows "\<exists>l'. list_pop_front l = Some l' \<and>
           dll (nodes l') (head l') (tail l') (tl as) \<and>
           list_sz l' = list_sz l - 1 \<and>
           vals (nodes l') (tl as) = tl (vals (nodes l) as) \<and>
           length (nodes l') = length (nodes l) \<and>
           deref (nodes l') (head l) = None"
proof (cases as)
  case Nil
  with assms show ?thesis by (simp add: list_pop_front_def list_empty_def)
next
  case (Cons a as')
  let ?h = "nodes l"
  from assms Cons have ne: "\<not> list_empty l" and hd: "head l = Some a"
    by (auto simp: list_empty_def dll_def)
  from assms(1) Cons obtain na where
    na: "deref ?h (Some a) = Some na" "node_prev na = None" and
    rest: "dpath ?h (Some a) (node_next na) as' None"
    by (auto simp: dll_def split: option.splits)
  from dll_distinct [OF assms(1)] Cons have nin: "a \<notin> set as'" "distinct as'" by simp_all
  have alt: "a < length ?h" using na(1) by (simp add: deref_Some_iff)
  show ?thesis
  proof (cases as')
    case Nil
    with Cons assms hd na(1) alt show ?thesis
      by (simp add: list_pop_front_def list_empty_def delete_node_def deref_update)
  next
    case (Cons b bs)
    from rest Cons obtain nb where
      nx: "node_next na = Some b" and
      nb: "deref ?h (Some b) = Some nb" "node_prev nb = Some a" and
      rest': "dpath ?h (Some b) (node_next nb) bs None"
      by (auto split: option.splits)
    from nin Cons have d: "b \<noteq> a" "a \<notin> set bs" "b \<notin> set bs" by auto
    have blt: "b < length ?h" using nb(1) by (simp add: deref_Some_iff)
    let ?h2 = "?h[a := None, b := Some (nb\<lparr>node_prev := None\<rparr>)]"
    have sz: "list_sz l \<noteq> 1" using assms(2) \<open>as = a # as'\<close> Cons by auto
    have pf: "list_pop_front l = Some (l\<lparr>nodes := ?h2, head := Some b, list_sz := list_sz l - 1\<rparr>)"
      using ne sz hd na nx nb d
      by (simp add: list_pop_front_def get_prev_def get_next_def delete_node_def set_prev_def
          deref_update)
    have "dpath ?h2 (Some b) (node_next nb) bs None"
      using rest' d by (simp add: dpath_update)
    moreover have "deref ?h2 (Some b) = Some (nb\<lparr>node_prev := None\<rparr>)"
      using blt by (simp add: deref_update)
    ultimately have "dll ?h2 (Some b) (tail l) (tl as)"
      using Cons \<open>as = a # as'\<close> assms(1) by (simp add: dll_def)
    moreover have "vals ?h2 (tl as) = tl (vals ?h as)"
      using Cons \<open>as = a # as'\<close> d blt nb(1) by (simp add: vals_update deref_update)
    moreover have "deref ?h2 (head l) = None"
      using hd d alt by (simp add: deref_update)
    ultimately show ?thesis using pf by simp
  qed
qed

lemma list_insert_dll:
  assumes "dll (nodes l) (head l) (tail l) as" and "length as = list_sz l"
    and "as = bs @ c # cs" and "bs \<noteq> []"
  shows "\<exists>l'. list_insert l (Some c) v = Some (l', Some c) \<and>
           dll (nodes l') (head l') (tail l') (bs @ length (nodes l) # c # cs) \<and>
           list_sz l' = list_sz l + 1 \<and>
           vals (nodes l') (bs @ length (nodes l) # c # cs)
             = vals (nodes l) bs @ v # vals (nodes l) (c # cs) \<and>
           length (nodes l') = length (nodes l) + 1"
proof -
  let ?h = "nodes l" and ?m = "length (nodes l)"
  from assms(4) obtain bs' p where bs: "bs = bs' @ [p]" by (cases bs rule: rev_cases) auto
  from assms(1,3) bs obtain np nc where
    pre: "dpath ?h None (head l) bs' (Some p)" and
    np: "deref ?h (Some p) = Some np" "node_prev np = last_ptr None bs'" "node_next np = Some c" and
    nc: "deref ?h (Some c) = Some nc" "node_prev nc = Some p" and
    post: "dpath ?h (Some c) (node_next nc) cs None"
    by (auto simp: dll_def dpath_app split: option.splits)
  from dll_distinct [OF assms(1)] assms(3) bs have
    d: "p \<noteq> c" "p \<notin> set bs'" "c \<notin> set bs'" "p \<notin> set cs" "c \<notin> set cs"
    by auto
  have plt: "p < ?m" and clt: "c < ?m"
    using np(1) nc(1) by (simp_all add: deref_Some_iff)
  have lt: "\<forall>a\<in>set bs'. a < ?m" "\<forall>a\<in>set cs. a < ?m"
    using dpath_lt [OF pre] dpath_lt [OF post] by blast+
  have hd: "head l \<noteq> Some c"
    using pre d by (cases bs') auto
  let ?h1 = "?h @ [Some \<lparr>node_t = v, node_prev = Some p, node_next = Some c\<rparr>]"
  let ?h3 = "?h1[p := Some (np\<lparr>node_next := Some ?m\<rparr>), c := Some (nc\<lparr>node_prev := Some ?m\<rparr>)]"
  have ins: "list_insert l (Some c) v = Some (l\<lparr>nodes := ?h3, list_sz := list_sz l + 1\<rparr>, Some c)"
    using hd np nc d plt clt
    by (simp add: list_insert_def list_begin_def list_end_def get_prev_def new_node_def
        set_next_def set_prev_def deref_append deref_update)
  have "dpath ?h3 None (head l) bs' (Some p)"
    using pre d by (simp add: dpath_update dpath_heap_append)
  moreover have "dpath ?h3 (Some c) (node_next nc) cs None"
    using post d by (simp add: dpath_update dpath_heap_append)
  moreover have "deref ?h3 (Some p) = Some (np\<lparr>node_next := Some ?m\<rparr>)"
    using plt d by (simp add: deref_update)
  moreover have "deref ?h3 (Some c) = Some (nc\<lparr>node_prev := Some ?m\<rparr>)"
    using clt by (simp add: deref_update)
  moreover have "deref ?h3 (Some ?m) = Some \<lparr>node_t = v, node_prev = Some p, node_next = Some c\<rparr>"
    using plt clt by (simp add: deref_update deref_new)
  ultimately have "dll ?h3 (head l) (tail l) (bs @ ?m # c # cs)"
    using np assms(1,3) bs by (simp add: dll_def dpath_app)
  moreover have "vals ?h3 (bs @ ?m # c # cs) = vals ?h bs @ v # vals ?h (c # cs)"
    using bs d plt clt lt np(1) nc(1)
    by (simp add: vals_update vals_heap_append deref_update deref_new deref_append)
  ultimately show ?thesis using ins by simp
qed

lemma list_erase_dll:
  assumes "dll (nodes l) (head l) (tail l) as" and "length as = list_sz l"
    and "as = bs @ c # cs" and "bs \<noteq> []" and "cs \<noteq> []"
  shows "\<exists>l'. list_erase l (Some c) = Some (l', Some c) \<and>
           dll (nodes l') (head l') (tail l') (bs @ cs) \<and>
           list_sz l' = list_sz l - 1 \<and>
           vals (nodes l') (bs @ cs) = vals (nodes l) bs @ vals (nodes l) cs \<and>
           length (nodes l') = length (nodes l)"
proof -
  let ?h = "nodes l"
  from assms(4) obtain bs' p where bs: "bs = bs' @ [p]" by (cases bs rule: rev_cases) auto
  from assms(5) obtain q cs' where cs: "cs = q # cs'" by (cases cs) auto
  from assms(1,3) bs cs obtain np nc nq where
    pre: "dpath ?h None (head l) bs' (Some p)" and
    np: "deref ?h (Some p) = Some np" "node_prev np = last_ptr None bs'" "node_next np = Some c" and
    nc: "deref ?h (Some c) = Some nc" "node_prev nc = Some p" "node_next nc = Some q" and
    nq: "deref ?h (Some q) = Some nq" "node_prev nq = Some c" and
    post: "dpath ?h (Some q) (node_next nq) cs' None"
    by (auto simp: dll_def dpath_app split: option.splits)
  from dll_distinct [OF assms(1)] assms(3) bs cs have
    d: "p \<noteq> c" "p \<noteq> q" "c \<noteq> q" "p \<notin> set bs'" "c \<notin> set bs'" "q \<notin> set bs'"
       "p \<notin> set cs'" "c \<notin> set cs'" "q \<notin> set cs'"
    by auto
  have plt: "p < length ?h" and clt: "c < length ?h" and qlt: "q < length ?h"
    using np(1) nc(1) nq(1) by (simp_all add: deref_Some_iff)
  have hd: "head l \<noteq> Some c"
    using pre d by (cases bs') auto
  have sz: "list_sz l \<noteq> 0" using assms(2,3) by auto
  let ?h3 = "?h[q := Some (nq\<lparr>node_prev := Some p\<rparr>), p := Some (np\<lparr>node_next := Some q\<rparr>), c := None]"
  have er: "list_erase l (Some c) = Some (l\<lparr>nodes := ?h3, list_sz := list_sz l - 1\<rparr>, Some c)"
    using hd sz np nc nq d plt clt qlt
    by (simp add: list_erase_def list_begin_def list_end_def get_prev_def get_next_def
        set_next_def set_prev_def delete_node_def deref_update)
  have "dpath ?h3 None (head l) bs' (Some p)"
    using pre d by (simp add: dpath_update)
  moreover have "dpath ?h3 (Some q) (node_next nq) cs' None"
    using post d by (simp add: dpath_update)
  moreover have "deref ?h3 (Some p) = Some (np\<lparr>node_next := Some q\<rparr>)"
    using plt d by (simp add: deref_update)
  moreover have "deref ?h3 (Some q) = Some (nq\<lparr>node_prev := Some p\<rparr>)"
    using qlt d by (simp add: deref_update)
  ultimately have "dll ?h3 (head l) (tail l) (bs @ cs)"
    using np assms(1,3) bs cs by (simp add: dll_def dpath_app)
  moreover have "vals ?h3 (bs @ cs) = vals ?h bs @ vals ?h cs"
    using bs cs d plt qlt np(1) nq(1)
    by (simp add: vals_update deref_update)
  ultimately show ?thesis using er by simp
qed

lemma list_erase_last_None:
  assumes "dll (nodes l) (head l) (tail l) as" and "as = bs @ [c]" and "bs \<noteq> []"
  shows "list_erase l (Some c) = None"
proof -
  let ?h = "nodes l"
  from assms obtain nc where
    pre: "dpath ?h None (head l) bs (Some c)" and
    nc: "deref ?h (Some c) = Some nc" "node_next nc = None"
    by (auto simp: dll_def dpath_snoc)
  from dll_distinct [OF assms(1)] assms(2) have "c \<notin> set bs" by simp
  with pre assms(3) have hd: "head l \<noteq> Some c" by (cases bs) auto
  show ?thesis
    using hd nc
    by (simp add: list_erase_def list_begin_def list_end_def get_next_def get_prev_def set_prev_def)
qed

lemma dpath_walk_fwd:
  "dpath h pv x as None \<Longrightarrow> length as \<le> k \<Longrightarrow> walk_fwd h x k = Some (vals h as)"
proof (induction as arbitrary: pv x k)
  case Nil
  then show ?case by simp
next
  case (Cons a as)
  then obtain k' where "k = Suc k'" by (cases k) auto
  with Cons show ?case by (auto split: option.splits)
qed

lemma dpath_walk_bwd:
  "dpath h None x as y \<Longrightarrow> length as \<le> k \<Longrightarrow>
   walk_bwd h (last_ptr None as) k = Some (rev (vals h as))"
proof (induction as arbitrary: y k rule: rev_induct)
  case Nil
  then show ?case by simp
next
  case (snoc a as)
  then obtain k' where k: "k = Suc k'" by (cases k) auto
  from snoc.prems(1) obtain n where
    n: "dpath h None x as (Some a)" "deref h (Some a) = Some n" "node_prev n = last_ptr None as"
    by (auto simp: dpath_snoc)
  from snoc.IH [OF n(1), of k'] snoc.prems(2) k n show ?case by simp
qed

lemma dll_length_le:
  assumes "dll h x y as"
  shows "length as \<le> length h"
proof -
  have "distinct as" using assms by (rule dll_distinct)
  moreover have "set as \<subseteq> {..<length h}"
    using assms dpath_lt [of h None x as None] by (auto simp: dll_def)
  ultimately show ?thesis
    using card_mono [of "{..<length h}" "set as"] by (simp add: distinct_card)
qed

lemma dll_unique: "dll h x y as \<Longrightarrow> dll h x y' bs \<Longrightarrow> as = bs"
  unfolding dll_def using dpath_unique by blast

lemma list_rep_iff:
  "list_rep l xs \<longleftrightarrow>
     (\<exists>as. dll (nodes l) (head l) (tail l) as \<and> length as = list_sz l \<and> vals (nodes l) as = xs)"
proof
  assume "list_rep l xs"
  then obtain as where as: "dll (nodes l) (head l) (tail l) as" "length as = list_sz l"
    and xs: "list_elems l = Some xs"
    by (auto simp: list_rep_def list_inv_iff)
  from as(1) have "list_elems l = Some (vals (nodes l) as)"
    unfolding list_elems_def
    by (intro dpath_walk_fwd [of _ None]) (auto simp: dll_def dll_length_le [OF as(1)])
  with as xs show "\<exists>as. dll (nodes l) (head l) (tail l) as \<and> length as = list_sz l \<and> vals (nodes l) as = xs"
    by auto
next
  assume "\<exists>as. dll (nodes l) (head l) (tail l) as \<and> length as = list_sz l \<and> vals (nodes l) as = xs"
  then obtain as where as: "dll (nodes l) (head l) (tail l) as" "length as = list_sz l"
    "vals (nodes l) as = xs" by blast
  from as(1) have "list_elems l = Some (vals (nodes l) as)"
    unfolding list_elems_def
    by (intro dpath_walk_fwd [of _ None]) (auto simp: dll_def dll_length_le [OF as(1)])
  with as show "list_rep l xs"
    by (auto simp: list_rep_def list_inv_iff)
qed

lemma list_inv_rep: "list_inv l \<Longrightarrow> \<exists>xs. list_rep l xs"
  by (auto simp: list_inv_iff list_rep_iff)

lemma list_rep_length: "list_rep l xs \<Longrightarrow> length xs = list_sz l"
  by (auto simp: list_rep_iff vals_def)

lemma list_rep_backward:
  assumes "list_rep l xs"
  shows "list_elems_backward l = Some (rev xs)"
proof -
  from assms obtain as where as: "dll (nodes l) (head l) (tail l) as" "vals (nodes l) as = xs"
    by (auto simp: list_rep_iff)
  from as(1) have "dpath (nodes l) None (head l) as None" "tail l = last_ptr None as"
    by (simp_all add: dll_def)
  with dpath_walk_bwd [of "nodes l" "head l" as None "length (nodes l)"] dll_length_le [OF as(1)] as(2)
  show ?thesis by (simp add: list_elems_backward_def)
qed

lemma list_rep_ends:
  assumes "list_rep l xs"
  shows "(list_sz l = 0 \<longleftrightarrow> head l = None \<and> tail l = None)"
    and "list_sz l \<noteq> 0 \<Longrightarrow> get_prev (nodes l) (head l) = Some None"
    and "list_sz l \<noteq> 0 \<Longrightarrow> get_next (nodes l) (tail l) = Some None"
proof -
  from assms obtain as where as: "dll (nodes l) (head l) (tail l) as" "length as = list_sz l"
    by (auto simp: list_rep_iff)
  show "(list_sz l = 0 \<longleftrightarrow> head l = None \<and> tail l = None)"
    using as by (cases as) (auto simp: dll_def last_ptr_def)
  show "get_prev (nodes l) (head l) = Some None" if "list_sz l \<noteq> 0"
    using as that by (cases as) (auto simp: dll_def get_prev_def split: option.splits)
  show "get_next (nodes l) (tail l) = Some None" if "list_sz l \<noteq> 0"
    using as that by (cases as rule: rev_cases) (auto simp: dll_def dpath_snoc get_next_def)
qed

lemma list_rep_empty: "list_rep \<lparr>nodes = h, head = None, tail = None, list_sz = 0\<rparr> []"
  by (simp add: list_rep_iff)

lemma list_push_back_rep:
  assumes "list_rep l xs"
  shows "\<exists>l'. list_push_back l v = Some l' \<and> list_rep l' (xs @ [v]) \<and> list_sz l' = list_sz l + 1"
proof -
  from assms obtain as where as: "dll (nodes l) (head l) (tail l) as" "length as = list_sz l"
    "vals (nodes l) as = xs" by (auto simp: list_rep_iff)
  from list_push_back_dll [OF as(1,2), of v] as show ?thesis
    unfolding list_rep_iff by (metis length_append_singleton Suc_eq_plus1)
qed

lemma list_push_front_rep:
  assumes "list_rep l xs"
  shows "\<exists>l'. list_push_front l v = Some l' \<and> list_rep l' (v # xs) \<and> list_sz l' = list_sz l + 1"
proof -
  from assms obtain as where as: "dll (nodes l) (head l) (tail l) as" "length as = list_sz l"
    "vals (nodes l) as = xs" by (auto simp: list_rep_iff)
  from list_push_front_dll [OF as(1,2), of v] as show ?thesis
    unfolding list_rep_iff by (metis length_Cons Suc_eq_plus1)
qed

lemma list_pop_back_rep:
  assumes "list_rep l xs"
  shows "\<exists>l'. list_pop_back l = Some l' \<and> list_rep l' (butlast xs) \<and> list_sz l' = list_sz l - 1"
proof -
  from assms obtain as where as: "dll (nodes l) (head l) (tail l) as" "length as = list_sz l"
    "vals (nodes l) as = xs" by (auto simp: list_rep_iff)
  from list_pop_back_dll [OF as(1,2)] as show ?thesis
    unfolding list_rep_iff by (metis length_butlast)
qed

lemma list_pop_front_rep:
  assumes "list_rep l xs"
  shows "\<exists>l'. list_pop_front l = Some l' \<and> list_rep l' (tl xs) \<and> list_sz l' = list_sz l - 1 \<and>
           deref (nodes l') (head l) = None"
proof -
  from assms obtain as where as: "dll (nodes l) (head l) (tail l) as" "length as = list_sz l"
    "vals (nodes l) as = xs" by (auto simp: list_rep_iff)
  from list_pop_front_dll [OF as(1,2)] as show ?thesis
    unfolding list_rep_iff by (metis length_tl)
qed

lemma dpath_advance:
  "dpath h pv x as y \<Longrightarrow> k \<le> length as \<Longrightarrow>
   advance h x k = Some (if k < length as then Some (as ! k) else y)"
proof (induction as arbitrary: pv x k)
  case Nil
  then show ?case by simp
next
  case (Cons a as)
  show ?case
  proof (cases k)
    case 0
    with Cons.prems show ?thesis by simp
  next
    case (Suc k')
    with Cons show ?thesis by (auto simp: get_next_def split: option.splits)
  qed
qed

lemma list_rep_advance:
  assumes "dll (nodes l) (head l) (tail l) as" and "k \<le> length as"
  shows "advance (nodes l) (list_begin l) k = Some (if k < length as then Some (as ! k) else list_end l)"
  using dpath_advance [of "nodes l" None "head l" as None k] assms
  by (simp add: dll_def list_begin_def list_end_def)

lemma list_insert_rep:
  assumes "list_rep l xs" and "k \<le> length xs"
    and "advance (nodes l) (list_begin l) k = Some it"
  shows "\<exists>l'. list_insert l it v = Some (l', it) \<and> list_rep l' (take k xs @ v # drop k xs) \<and>
           list_sz l' = list_sz l + 1"
proof -
  from assms(1) obtain as where as: "dll (nodes l) (head l) (tail l) as" "length as = list_sz l"
    "vals (nodes l) as = xs" by (auto simp: list_rep_iff)
  have len: "length xs = length as" using as(3) by (auto simp: vals_def)
  from list_rep_advance [OF as(1), of k] assms(2,3) len
  have it: "it = (if k < length as then Some (as ! k) else None)"
    by (simp add: list_end_def)
  consider (at_front) "k = 0" | (at_back) "k = length as" "k \<noteq> 0" | (inside) "0 < k" "k < length as"
    using assms(2) len by linarith
  then show ?thesis
  proof cases
    case at_front
    have "it = list_begin l"
      using it at_front as(1) by (cases as) (auto simp: dll_def list_begin_def)
    with list_push_front_rep [OF assms(1), of v] at_front show ?thesis
      by (auto simp: list_insert_def)
  next
    case at_back
    then have "it = None" "it \<noteq> list_begin l"
      using it as(1) by (cases as; auto simp: dll_def list_begin_def)+
    with list_push_back_rep [OF assms(1), of v] at_back len show ?thesis
      by (auto simp: list_insert_def list_end_def)
  next
    case inside
    let ?bs = "take k as" and ?c = "as ! k" and ?cs = "drop (Suc k) as"
    have dec: "as = ?bs @ ?c # ?cs" using inside by (simp add: id_take_nth_drop)
    have ne: "?bs \<noteq> []" using inside by auto
    from list_insert_dll [OF as(1,2) dec ne, of v] obtain l' where
      l': "list_insert l (Some ?c) v = Some (l', Some ?c)"
        "dll (nodes l') (head l') (tail l') (?bs @ length (nodes l) # ?c # ?cs)"
        "list_sz l' = list_sz l + 1"
        "vals (nodes l') (?bs @ length (nodes l) # ?c # ?cs)
           = vals (nodes l) ?bs @ v # vals (nodes l) (?c # ?cs)"
      by blast
    have "vals (nodes l) ?bs = take k xs"
      using as(3) by (auto simp: vals_def take_map)
    moreover have "vals (nodes l) (?c # ?cs) = drop k xs"
    proof -
      have "?c # ?cs = drop k as" using inside by (simp add: Cons_nth_drop_Suc)
      then show ?thesis using as(3) unfolding vals_def by (metis drop_map)
    qed
    moreover have "length (?bs @ length (nodes l) # ?c # ?cs) = list_sz l'"
      using l'(3) as(2) inside by simp
    ultimately have "list_rep l' (take k xs @ v # drop k xs)"
      unfolding list_rep_iff using l'(2,4) by metis
    with l' it inside show ?thesis by auto
  qed
qed

lemma list_erase_rep:
  assumes "list_rep l xs" and "k \<le> length xs" and "Suc k \<noteq> length xs \<or> k = 0"
    and "advance (nodes l) (list_begin l) k = Some it"
  shows "\<exists>l'. list_erase l it = Some (l', it) \<and>
           list_rep l' (if k = length xs then butlast xs else take k xs @ drop (Suc k) xs) \<and>
           list_sz l' = list_sz l - 1"
proof -
  from assms(1) obtain as where as: "dll (nodes l) (head l) (tail l) as" "length as = list_sz l"
    "vals (nodes l) as = xs" by (auto simp: list_rep_iff)
  have len: "length xs = length as" using as(3) by (auto simp: vals_def)
  from list_rep_advance [OF as(1), of k] assms(2,4) len
  have it: "it = (if k < length as then Some (as ! k) else None)"
    by (simp add: list_end_def)
  consider (at_front) "k = 0" | (at_back) "k = length as" "k \<noteq> 0" | (inside) "0 < k" "Suc k < length as"
    using assms(2,3) len by linarith
  then show ?thesis
  proof cases
    case at_front
    have "it = list_begin l"
      using it at_front as(1) by (cases as) (auto simp: dll_def list_begin_def)
    moreover have "(if k = length xs then butlast xs else take k xs @ drop (Suc k) xs) = tl xs"
      using at_front by (cases xs) auto
    ultimately show ?thesis
      using list_pop_front_rep [OF assms(1)] by (auto simp: list_erase_def)
  next
    case at_back
    then have "it = None" "it \<noteq> list_begin l"
      using it as(1) by (cases as; auto simp: dll_def list_begin_def)+
    with list_pop_back_rep [OF assms(1)] at_back len show ?thesis
      by (auto simp: list_erase_def list_end_def)
  next
    case inside
    let ?bs = "take k as" and ?c = "as ! k" and ?cs = "drop (Suc k) as"
    have dec: "as = ?bs @ ?c # ?cs" using inside by (simp add: id_take_nth_drop)
    have ne: "?bs \<noteq> []" "?cs \<noteq> []" using inside by auto
    from list_erase_dll [OF as(1,2) dec ne] obtain l' where
      l': "list_erase l (Some ?c) = Some (l', Some ?c)"
        "dll (nodes l') (head l') (tail l') (?bs @ ?cs)"
        "list_sz l' = list_sz l - 1"
        "vals (nodes l') (?bs @ ?cs) = vals (nodes l) ?bs @ vals (nodes l) ?cs"
      by blast
    have "vals (nodes l) ?bs = take k xs"
      using as(3) by (auto simp: vals_def take_map)
    moreover have "vals (nodes l) ?cs = drop (Suc k) xs"
      using as(3) by (auto simp: vals_def drop_map)
    moreover have "length (?bs @ ?cs) = list_sz l'"
      using l'(3) as(2) inside by simp
    ultimately have "list_rep l' (take k xs @ drop (Suc k) xs)"
      unfolding list_rep_iff using l'(2,4) by metis
    with l' it inside len show ?thesis by auto
  qed
qed

lemma list_erase_last_crash:
  assumes "list_rep l xs" and "Suc k = length xs" and "k \<noteq> 0"
    and "advance (nodes l) (list_begin l) k = Some it"
  shows "list_erase l it = None"
proof -
  from assms(1) obtain as where as: "dll (nodes l) (head l) (tail l) as" "length as = list_sz l"
    "vals (nodes l) as = xs" by (auto simp: list_rep_iff)
  have len: "length xs = length as" using as(3) by (auto simp: vals_def)
  from list_rep_advance [OF as(1), of k] assms(2,4) len
  have it: "it = Some (as ! k)" by simp
  have "as = butlast as @ [as ! k]" "butlast as \<noteq> []"
    using assms(2,3) len
    by (cases as rule: rev_cases; auto simp: nth_append)+
  from list_erase_last_None [OF as(1) this] it show ?thesis by simp
qed

lemma list_resize_grow_rep:
  "list_rep l xs \<Longrightarrow>
   \<exists>l'. list_resize_grow l n v = Some l' \<and> list_rep l' (xs @ replicate (n - list_sz l) v) \<and>
        list_sz l' = max n (list_sz l)"
proof (induction l n v arbitrary: xs rule: list_resize_grow.induct)
  case (1 l n v)
  show ?case
  proof (cases "list_sz l < n")
    case True
    from list_push_back_rep [OF 1(2), of v] obtain l1 where
      l1: "list_push_back l v = Some l1" "list_rep l1 (xs @ [v])" "list_sz l1 = list_sz l + 1"
      by blast
    from 1(1) [OF True l1(1) l1(2)] obtain l' where
      l': "list_resize_grow l1 n v = Some l'"
        "list_rep l' ((xs @ [v]) @ replicate (n - list_sz l1) v)"
        "list_sz l' = max n (list_sz l1)" by blast
    have "(xs @ [v]) @ replicate (n - list_sz l1) v = xs @ replicate (n - list_sz l) v"
      using True l1(3) by (cases "n - list_sz l") auto
    with True l1 l' show ?thesis
      by (subst list_resize_grow.simps) (auto simp: max_def)
  next
    case False
    with 1(2) show ?thesis
      by (subst list_resize_grow.simps) (simp add: max_def)
  qed
qed

lemma list_resize_shrink_rep:
  "list_rep l xs \<Longrightarrow>
   \<exists>l'. list_resize_shrink l n = Some l' \<and> list_rep l' (take n xs) \<and>
        list_sz l' = min n (list_sz l)"
proof (induction l n arbitrary: xs rule: list_resize_shrink.induct)
  case (1 l n)
  have len: "length xs = list_sz l" using 1(2) by (rule list_rep_length)
  show ?case
  proof (cases "n < list_sz l")
    case True
    from list_pop_back_rep [OF 1(2)] obtain l1 where
      l1: "list_pop_back l = Some l1" "list_rep l1 (butlast xs)" "list_sz l1 = list_sz l - 1"
      by blast
    from 1(1) [OF True l1(1) l1(2)] obtain l' where
      l': "list_resize_shrink l1 n = Some l'" "list_rep l' (take n (butlast xs))"
        "list_sz l' = min n (list_sz l1)" by blast
    have "take n (butlast xs) = take n xs"
      using True len by (simp add: take_butlast)
    with True l1 l' show ?thesis
      by (subst list_resize_shrink.simps) (auto simp: min_def)
  next
    case False
    with 1(2) len show ?thesis
      by (subst list_resize_shrink.simps) (simp add: min_def)
  qed
qed

lemma list_resize_rep:
  assumes "list_rep l xs"
  shows "\<exists>l'. list_resize l n v = Some l' \<and>
           list_rep l' (take n xs @ replicate (n - list_sz l) v) \<and> list_sz l' = n"
proof -
  have len: "length xs = list_sz l" using assms by (rule list_rep_length)
  from list_resize_grow_rep [OF assms, of n v] obtain l1 where
    l1: "list_resize_grow l n v = Some l1" "list_rep l1 (xs @ replicate (n - list_sz l) v)"
      "list_sz l1 = max n (list_sz l)" by blast
  from list_resize_shrink_rep [OF l1(2), of n] obtain l' where
    l': "list_resize_shrink l1 n = Some l'"
      "list_rep l' (take n (xs @ replicate (n - list_sz l) v))"
      "list_sz l' = min n (list_sz l1)" by blast
  have "take n (xs @ replicate (n - list_sz l) v) = take n xs @ replicate (n - list_sz l) v"
    using len by simp
  with l1 l' show ?thesis
    by (auto simp: list_resize_def min_def max_def)
qed

lemma list_new_rep:
  "\<exists>l. list_new h n v = Some l \<and> list_rep l (replicate n v) \<and> list_sz l = n"
  using list_resize_grow_rep [OF list_rep_empty, of h n v]
  by (auto simp: list_new_def)

lemma list_rep_head:
  assumes "list_rep l xs"
  shows "list_sz l = 0 \<longleftrightarrow> head l = None"
proof -
  from assms obtain as where as: "dll (nodes l) (head l) (tail l) as" "length as = list_sz l"
    by (auto simp: list_rep_iff)
  then show ?thesis by (cases as) (auto simp: dll_def)
qed

lemma list_clear_empty:
  assumes "list_rep l []"
  shows "list_clear l = Some l"
proof -
  have "head l = None" using list_rep_ends(1) [OF assms] list_rep_length [OF assms] by simp
  then show ?thesis
    by (simp add: list_clear_def list_begin_def list_clear_loop.simps)
qed

lemma list_clear_nonempty:
  assumes "list_rep l xs" and "xs \<noteq> []"
  shows "list_clear l = None"
proof -
  have "list_sz l \<noteq> 0" using list_rep_length [OF assms(1)] assms(2) by (cases xs) auto
  then have hd: "head l \<noteq> None" using list_rep_head [OF assms(1)] by simp
  from list_pop_front_rep [OF assms(1)] obtain l1 where
    l1: "list_pop_front l = Some l1" "deref (nodes l1) (head l) = None" by blast
  show ?thesis
    unfolding list_clear_def list_begin_def
    by (subst list_clear_loop.simps) (simp add: hd l1 get_next_def)
qed

lemma list_push_back_frame:
  assumes "list_push_back l v = Some l'"
  shows "length (nodes l') = length (nodes l) + 1"
    and "tail l' = Some (length (nodes l))"
    and "a < length (nodes l) \<Longrightarrow> Some a \<noteq> tail l \<Longrightarrow>
         deref (nodes l') (Some a) = deref (nodes l) (Some a)"
  using assms
  by (auto simp: list_push_back_def new_node_def set_next_def deref_def nth_append
      split: if_splits bind_splits option.splits)

lemma dpath_cong:
  "\<forall>a\<in>set as. deref h' (Some a) = deref h (Some a) \<Longrightarrow> dpath h' pv x as y = dpath h pv x as y"
  by (induction as arbitrary: pv x) (auto split: option.splits)

lemma vals_cong:
  "\<forall>a\<in>set as. deref h' (Some a) = deref h (Some a) \<Longrightarrow> vals h' as = vals h as"
  by (simp add: vals_def)

lemma list_copy_loop_rep:
  assumes "dpath h0 pv it cs None"
    and "list_rep l ys"
    and "length h0 \<le> length (nodes l)"
    and "\<forall>a<length h0. deref (nodes l) (Some a) = deref h0 (Some a)"
    and "\<forall>b. tail l = Some b \<longrightarrow> length h0 \<le> b"
  shows "\<exists>l'. list_copy_loop l it = Some l' \<and> list_rep l' (ys @ vals h0 cs) \<and>
           list_sz l' = list_sz l + length cs \<and> length h0 \<le> length (nodes l') \<and>
           (\<forall>a<length h0. deref (nodes l') (Some a) = deref h0 (Some a))"
  using assms
proof (induction cs arbitrary: pv it l ys)
  case Nil
  then show ?case by (subst list_copy_loop.simps) simp
next
  case (Cons c cs)
  from Cons.prems(1) obtain nc where
    it: "it = Some c" and nc: "deref h0 (Some c) = Some nc" and
    rest: "dpath h0 (Some c) (node_next nc) cs None"
    by (auto split: option.splits)
  have clt: "c < length h0" using nc by (simp add: deref_Some_iff)
  then have cur: "deref (nodes l) (Some c) = Some nc" using Cons.prems(4) nc by simp
  from list_push_back_rep [OF Cons.prems(2), of "node_t nc"] obtain l1 where
    l1: "list_push_back l (node_t nc) = Some l1" "list_rep l1 (ys @ [node_t nc])"
      "list_sz l1 = list_sz l + 1" by blast
  note fr = list_push_back_frame [OF l1(1)]
  have len1: "length h0 \<le> length (nodes l1)" using fr(1) Cons.prems(3) by simp
  have same1: "\<forall>a<length h0. deref (nodes l1) (Some a) = deref h0 (Some a)"
  proof (intro allI impI)
    fix a assume a: "a < length h0"
    then have "Some a \<noteq> tail l" using Cons.prems(5) by (metis not_le)
    with a Cons.prems(3,4) fr(3) [of a] show "deref (nodes l1) (Some a) = deref h0 (Some a)"
      by simp
  qed
  have tl1: "\<forall>b. tail l1 = Some b \<longrightarrow> length h0 \<le> b"
    using fr(2) Cons.prems(3) by simp
  from Cons.IH [OF rest l1(2) len1 same1 tl1] obtain l' where
    l': "list_copy_loop l1 (node_next nc) = Some l'"
      "list_rep l' ((ys @ [node_t nc]) @ vals h0 cs)"
      "list_sz l' = list_sz l1 + length cs" "length h0 \<le> length (nodes l')"
      "\<forall>a<length h0. deref (nodes l') (Some a) = deref h0 (Some a)" by blast
  have nx: "get_next (nodes l1) (Some c) = Some (node_next nc)"
    using same1 clt nc by (simp add: get_next_def)
  have "list_copy_loop l it = Some l'"
    by (subst list_copy_loop.simps) (simp add: it cur get_t_def l1(1) nx l'(1))
  with l' l1(3) nc show ?case by simp
qed

lemma list_copy_rep:
  assumes "list_rep v xs"
  shows "\<exists>l'. list_copy v = Some l' \<and> list_rep l' xs \<and> list_sz l' = list_sz v \<and>
           list_rep (v\<lparr>nodes := nodes l'\<rparr>) xs"
proof -
  from assms obtain as where as: "dll (nodes v) (head v) (tail v) as" "length as = list_sz v"
    "vals (nodes v) as = xs" by (auto simp: list_rep_iff)
  let ?l0 = "\<lparr>nodes = nodes v, head = None, tail = None, list_sz = 0\<rparr>"
  have p: "dpath (nodes v) None (head v) as None" using as(1) by (simp add: dll_def)
  from list_copy_loop_rep [OF p list_rep_empty, of "nodes v"] obtain l' where
    l': "list_copy_loop ?l0 (head v) = Some l'" "list_rep l' ([] @ vals (nodes v) as)"
      "list_sz l' = list_sz ?l0 + length as" "length (nodes v) \<le> length (nodes l')"
      "\<forall>a<length (nodes v). deref (nodes l') (Some a) = deref (nodes v) (Some a)"
    by auto
  have same: "\<forall>a\<in>set as. deref (nodes l') (Some a) = deref (nodes v) (Some a)"
    using l'(5) dpath_lt [OF p] by blast
  have "dll (nodes l') (head v) (tail v) as"
    using as(1) dpath_cong [OF same] by (simp add: dll_def)
  moreover have "vals (nodes l') as = xs"
    using as(3) vals_cong [OF same] by simp
  ultimately have "list_rep (v\<lparr>nodes := nodes l'\<rparr>) xs"
    using as(2) by (auto simp: list_rep_iff)
  with l' as show ?thesis by (simp add: list_copy_def list_begin_def)
qed

lemma list_assign_empty_rep:
  assumes "list_rep this []" and "list_rep (v\<lparr>nodes := nodes this\<rparr>) xs"
  shows "\<exists>l'. list_assign this v False = Some l' \<and> list_rep l' xs \<and>
           list_rep (v\<lparr>nodes := nodes l'\<rparr>) xs"
proof -
  let ?h = "nodes this"
  from assms(2) obtain as where as: "dll ?h (head v) (tail v) as" "length as = list_sz v"
    "vals ?h as = xs" by (auto simp: list_rep_iff)
  have p: "dpath ?h None (head v) as None" using as(1) by (simp add: dll_def)
  have tl: "tail this = None"
    using list_rep_ends(1) [OF assms(1)] list_rep_length [OF assms(1)] by simp
  from list_copy_loop_rep [OF p assms(1), of] tl obtain l' where
    l': "list_copy_loop this (head v) = Some l'" "list_rep l' ([] @ vals ?h as)"
      "\<forall>a<length ?h. deref (nodes l') (Some a) = deref ?h (Some a)"
    by auto
  have same: "\<forall>a\<in>set as. deref (nodes l') (Some a) = deref ?h (Some a)"
    using l'(3) dpath_lt [OF p] by blast
  have "dll (nodes l') (head v) (tail v) as"
    using as(1) dpath_cong [OF same] by (simp add: dll_def)
  moreover have "vals (nodes l') as = xs"
    using as(3) vals_cong [OF same] by simp
  ultimately have "list_rep (v\<lparr>nodes := nodes l'\<rparr>) xs"
    using as(2) by (auto simp: list_rep_iff)
  with l' as show ?thesis
    by (simp add: list_assign_def list_clear_empty [OF assms(1)] list_begin_def)
qed

lemma list_assign_self_empty:
  assumes "list_rep this []"
  shows "list_assign this this True = Some this"
proof -
  have "head this = None" using list_rep_head [OF assms] list_rep_length [OF assms] by simp
  then show ?thesis
    by (simp add: list_assign_def list_clear_empty [OF assms] list_begin_def list_copy_loop.simps)
qed

lemma list_assign_nonempty:
  assumes "list_rep this ys" and "ys \<noteq> []"
  shows "list_assign this v same = None"
  by (simp add: list_assign_def list_clear_nonempty [OF assms])

lemma list_inv_structure:
  assumes "list_inv l"
  shows "(list_size l = 0 \<longleftrightarrow> head l = None \<and> tail l = None) \<and>
         (list_size l \<noteq> 0 \<longrightarrow>
            get_prev (nodes l) (head l) = Some None \<and> get_next (nodes l) (tail l) = Some None) \<and>
         (\<exists>xs. list_elems l = Some xs \<and> list_elems_backward l = Some (rev xs) \<and>
               length xs = list_size l)"
proof -
  from list_inv_rep [OF assms] obtain xs where xs: "list_rep l xs" by blast
  from list_rep_ends [OF xs] list_rep_backward [OF xs] list_rep_length [OF xs] xs
  show ?thesis by (auto simp: list_size_def list_rep_def)
qed

lemma list_inv_preserved:
  assumes "list_inv l"
  shows "\<exists>l'. list_push_front l v = Some l' \<and> list_inv l'"
    and "\<exists>l'. list_push_back l v = Some l' \<and> list_inv l'"
    and "\<exists>l'. list_pop_front l = Some l' \<and> list_inv l'"
    and "\<exists>l'. list_pop_back l = Some l' \<and> list_inv l'"
    and "\<exists>l'. list_resize l n v = Some l' \<and> list_inv l'"
    and "k \<le> list_size l \<Longrightarrow> advance (nodes l) (list_begin l) k = Some it \<Longrightarrow>
         \<exists>l'. list_insert l it v = Some (l', it) \<and> list_inv l'"
    and "k \<le> list_size l \<Longrightarrow> Suc k \<noteq> list_size l \<or> k = 0 \<Longrightarrow>
         advance (nodes l) (list_begin l) k = Some it \<Longrightarrow>
         \<exists>l'. list_erase l it = Some (l', it) \<and> list_inv l'"
    and "\<exists>l'. list_copy l = Some l' \<and> list_inv l' \<and> list_inv (l\<lparr>nodes := nodes l'\<rparr>)"
proof -
  from list_inv_rep [OF assms] obtain xs where xs: "list_rep l xs" by blast
  note len = list_rep_length [OF xs]
  show "\<exists>l'. list_push_front l v = Some l' \<and> list_inv l'"
    using list_push_front_rep [OF xs, of v] by (auto simp: list_rep_def)
  show "\<exists>l'. list_push_back l v = Some l' \<and> list_inv l'"
    using list_push_back_rep [OF xs, of v] by (auto simp: list_rep_def)
  show "\<exists>l'. list_pop_front l = Some l' \<and> list_inv l'"
    using list_pop_front_rep [OF xs] by (auto simp: list_rep_def)
  show "\<exists>l'. list_pop_back l = Some l' \<and> list_inv l'"
    using list_pop_back_rep [OF xs] by (auto simp: list_rep_def)
  show "\<exists>l'. list_resize l n v = Some l' \<and> list_inv l'"
    using list_resize_rep [OF xs, of n v] by (auto simp: list_rep_def)
  show "\<exists>l'. list_insert l it v = Some (l', it) \<and> list_inv l'"
    if "k \<le> list_size l" "advance (nodes l) (list_begin l) k = Some it"
    using list_insert_rep [OF xs _ that(2), of v] that(1) len
    by (auto simp: list_rep_def list_size_def)
  show "\<exists>l'. list_erase l it = Some (l', it) \<and> list_inv l'"
    if "k \<le> list_size l" "Suc k \<noteq> list_size l \<or> k = 0"
      "advance (nodes l) (list_begin l) k = Some it"
    using list_erase_rep [OF xs _ _ that(3)] that(1,2) len
    by (auto simp: list_rep_def list_size_def)
  show "\<exists>l'. list_copy l = Some l' \<and> list_inv l' \<and> list_inv (l\<lparr>nodes := nodes l'\<rparr>)"
    using list_copy_rep [OF xs] by (auto simp: list_rep_def)
qed

lemma list_new_inv: "\<exists>l. list_new h n v = Some l \<and> list_inv l \<and> list_size l = n"
  using list_new_rep [of h n v] by (auto simp: list_rep_def list_size_def)

lemma list_erase_20_example:
  "list_erase list_10_20_30 (Some 1) =
     Some (\<lparr>nodes = [Some \<lparr>node_t = 10, node_prev = None, node_next = Some 2\<rparr>,
                      None,
                      Some \<lparr>node_t = 30, node_prev = Some 0, node_next = None\<rparr>],
            head = Some 0, tail = Some 2, list_sz = 2\<rparr>, Some 1) \<and>
   list_elems \<lparr>nodes = [Some \<lparr>node_t = 10, node_prev = None, node_next = Some 2\<rparr>,
                      None,
                      Some \<lparr>node_t = 30 :: int, node_prev = Some 0, node_next = None\<rparr>],
            head = Some 0, tail = Some 2, list_sz = 2\<rparr> = Some [10, 30]"
  by (simp add: list_erase_def list_begin_def list_end_def get_next_def get_prev_def
      set_prev_def set_next_def delete_node_def deref_def list_elems_def eval_nat_numeral)

section \<open>The claims\<close>

text \<open>
  C1 at the vector \<open>[1, 2, 3]\<close> of capacity 10: \<^verbatim>\<open>insert\<close> of 9 at position 0 returns the
  sequence \<open>[9, 2, 3, 1]\<close>. The element that was at the position is moved to the end and the
  elements after it stay where they were, so the sequence is not \<open>[9, 1, 2, 3]\<close>.
\<close>

theorem insert_breaks_order:
  "vector_insert \<lparr>t = [1, 2, 3, 0, 0, 0, 0, 0, 0, 0 :: int], cap = 10, sz = 3\<rparr> 0 9
     = Some (\<lparr>t = [9, 2, 3, 1, 0, 0, 0, 0, 0, 0], cap = 10, sz = 4\<rparr>, 0) \<and>
   elems \<lparr>t = [9, 2, 3, 1, 0, 0, 0, 0, 0, 0 :: int], cap = 10, sz = 4\<rparr> = [9, 2, 3, 1]"
  by (simp add: vector_insert_Some vector_inv_def elems_def)

text \<open>
  C2 at the list \<open>[1, 2]\<close>, which \<^verbatim>\<open>push_back(1); push_back(2)\<close> builds and which satisfies the
  invariant: \<^verbatim>\<open>erase\<close> with the iterator of the last node (one increment from \<^verbatim>\<open>begin()\<close>) is
  neither \<^verbatim>\<open>begin()\<close> nor \<^verbatim>\<open>end()\<close>, so the last branch runs and writes through the null
  \<^verbatim>\<open>next\<close> pointer of that node: there is no list afterwards for the invariant to hold of.
\<close>

theorem erase_last_node_no_list:
  "list_push_back \<lparr>nodes = [], head = None, tail = None, list_sz = 0\<rparr> (1 :: int)
     = Some \<lparr>nodes = [Some \<lparr>node_t = 1, node_prev = None, node_next = None\<rparr>],
             head = Some 0, tail = Some 0, list_sz = 1\<rparr> \<and>
   list_push_back \<lparr>nodes = [Some \<lparr>node_t = 1, node_prev = None, node_next = None\<rparr>],
             head = Some 0, tail = Some 0, list_sz = 1\<rparr> (2 :: int) = Some list_1_2 \<and>
   list_inv list_1_2 \<and>
   advance (nodes list_1_2) (list_begin list_1_2) 1 = Some (Some 1) \<and>
   list_erase list_1_2 (Some 1) = None"
  by (simp add: list_push_back_def list_empty_def new_node_def set_next_def set_prev_def
      deref_def list_inv_def dll_def last_ptr_def list_begin_def list_end_def get_next_def
      get_prev_def list_erase_def eval_nat_numeral)

text \<open>
  C3: on a vector whose size equals its capacity, \<^verbatim>\<open>insert\<close> at any position returns with
  the vector unchanged (size, capacity and buffer): the value is dropped and nothing grows.
\<close>

theorem insert_full_unchanged:
  "vector_size v = vector_capacity v \<Longrightarrow> vector_insert v i val = Some (v, i)"
  by (simp add: vector_insert_def vector_size_def vector_capacity_def)

theorem insert_full_unchanged_witness:
  "vector_size \<lparr>t = [1, 2, 3, 4, 5, 6, 7, 8, 9, 10 :: int], cap = 10, sz = 10\<rparr>
     = vector_capacity \<lparr>t = [1, 2, 3, 4, 5, 6, 7, 8, 9, 10 :: int], cap = 10, sz = 10\<rparr> \<and>
   vector_insert \<lparr>t = [1, 2, 3, 4, 5, 6, 7, 8, 9, 10 :: int], cap = 10, sz = 10\<rparr> 4 99
     = Some (\<lparr>t = [1, 2, 3, 4, 5, 6, 7, 8, 9, 10], cap = 10, sz = 10\<rparr>, 4)"
proof -
  have h: "vector_size \<lparr>t = [1, 2, 3, 4, 5, 6, 7, 8, 9, 10 :: int], cap = 10, sz = 10\<rparr>
     = vector_capacity \<lparr>t = [1, 2, 3, 4, 5, 6, 7, 8, 9, 10 :: int], cap = 10, sz = 10\<rparr>"
    by (simp add: vector_size_def vector_capacity_def)
  show ?thesis using h insert_full_unchanged [OF h, of 4 99] by simp
qed

text \<open>
  C4: on a well-formed vector \<^verbatim>\<open>at(i)\<close> throws exactly when \<open>i \<ge> size()\<close>, and what it
  throws is the out-of-range error; for \<open>i < size()\<close> it returns the element at index \<open>i\<close>;
  in both cases the vector is as before.
\<close>

theorem at_range_check:
  assumes "vector_inv v"
  shows "((\<exists>e v'. vector_at v i = Some (Inl e, v')) \<longleftrightarrow> vector_size v \<le> i) \<and>
         (vector_size v \<le> i \<longrightarrow> vector_at v i = Some (Inl out_of_range, v)) \<and>
         (i < vector_size v \<longrightarrow> vector_at v i = Some (Inr (elems v ! i), v))"
  using assms by (auto simp: vector_at_def vector_inv_def vector_size_def elems_def rd_def)

theorem at_range_check_witness:
  "vector_inv \<lparr>t = [1, 2, 3, 0, 0, 0, 0, 0, 0, 0 :: int], cap = 10, sz = 3\<rparr> \<and>
   vector_at \<lparr>t = [1, 2, 3, 0, 0, 0, 0, 0, 0, 0 :: int], cap = 10, sz = 3\<rparr> 3
     = Some (Inl out_of_range, \<lparr>t = [1, 2, 3, 0, 0, 0, 0, 0, 0, 0], cap = 10, sz = 3\<rparr>) \<and>
   vector_at \<lparr>t = [1, 2, 3, 0, 0, 0, 0, 0, 0, 0 :: int], cap = 10, sz = 3\<rparr> 1
     = Some (Inr 2, \<lparr>t = [1, 2, 3, 0, 0, 0, 0, 0, 0, 0], cap = 10, sz = 3\<rparr>)"
proof -
  have h: "vector_inv \<lparr>t = [1, 2, 3, 0, 0, 0, 0, 0, 0, 0 :: int], cap = 10, sz = 3\<rparr>"
    by (simp add: vector_inv_def)
  show ?thesis
    using h at_range_check [OF h, of 3] at_range_check [OF h, of 1]
    by (simp add: vector_size_def elems_def)
qed

text \<open>
  C5 at the full vector \<open>[1, ..., 10]\<close> of capacity 10 and the call \<^verbatim>\<open>v.push_back(v[0])\<close>:
  the argument is a reference to slot 0 of the buffer, \<^verbatim>\<open>reserve\<close> copies the elements and
  frees that buffer, and \<^verbatim>\<open>t[sz] = val\<close> then reads through the dangling reference, so the
  value 1 is not what is written at index 10; there is no defined result. The same holds
  of \<^verbatim>\<open>push_back_incremental\<close>.
\<close>

theorem push_back_own_element_undefined:
  "vector_inv \<lparr>t = [1, 2, 3, 4, 5, 6, 7, 8, 9, 10 :: int], cap = 10, sz = 10\<rparr> \<and>
   vector_size \<lparr>t = [1, 2, 3, 4, 5, 6, 7, 8, 9, 10 :: int], cap = 10, sz = 10\<rparr>
     = vector_capacity \<lparr>t = [1, 2, 3, 4, 5, 6, 7, 8, 9, 10 :: int], cap = 10, sz = 10\<rparr> \<and>
   read_arg [1, 2, 3, 4, 5, 6, 7, 8, 9, 10 :: int] False (Own 0) = Some 1 \<and>
   map_option snd
     (reserve_freed \<lparr>t = [1, 2, 3, 4, 5, 6, 7, 8, 9, 10 :: int], cap = 10, sz = 10\<rparr> 20)
     = Some True \<and>
   push_back \<lparr>t = [1, 2, 3, 4, 5, 6, 7, 8, 9, 10 :: int], cap = 10, sz = 10\<rparr> (Own 0) = None \<and>
   push_back_incremental \<lparr>t = [1, 2, 3, 4, 5, 6, 7, 8, 9, 10 :: int], cap = 10, sz = 10\<rparr> (Own 0)
     = None"
  by (simp add: vector_inv_def vector_size_def vector_capacity_def read_arg_def rd_def
      reserve_freed_Some push_back_Own_full push_back_incremental_Own_full)

text \<open>
  C6, as stated, at the empty vector and the sequence of a single \<^verbatim>\<open>pop_back\<close>: the call
  changes nothing, so the size stays \<open>0\<close> and is not \<open>0 + 0 - 1\<close>.
\<close>

theorem pop_on_empty_counterexample:
  "run_ops \<lparr>t = replicate 10 (0 :: int), cap = 10, sz = 0\<rparr> [Pop]
     = Some \<lparr>t = replicate 10 0, cap = 10, sz = 0\<rparr> \<and>
   int (vector_size \<lparr>t = replicate 10 (0 :: int), cap = 10, sz = 0\<rparr>)
     \<noteq> int (vector_size \<lparr>t = replicate 10 (0 :: int), cap = 10, sz = 0\<rparr>)
         + int (pushes [Pop :: int op]) - int (pops [Pop :: int op])"
  by (simp add: pop_back_def vector_empty_def vector_size_def)

text \<open>
  C6, amended: for every sequence of \<^verbatim>\<open>push_back\<close> and \<^verbatim>\<open>pop_back\<close> calls on a well-formed
  vector, the pushed values being the caller's own, all calls return and the size afterwards is the size before, plus the number of
  pushes, minus the number of pops, plus the number of pops that met an empty vector
  (each of those is a no-op).
\<close>

theorem size_after_push_pop:
  assumes "vector_inv v"
  shows "\<exists>v'. run_ops v ops = Some v' \<and>
           int (vector_size v') = int (vector_size v) + int (pushes ops) - int (pops ops)
                             + int (pops_on_empty (vector_size v) ops)"
  using run_ops_props [OF assms, of ops] by (auto simp: vector_size_def)

theorem size_after_push_pop_witness:
  "vector_inv \<lparr>t = replicate 10 (0 :: int), cap = 10, sz = 0\<rparr> \<and>
   (\<exists>v'. run_ops \<lparr>t = replicate 10 (0 :: int), cap = 10, sz = 0\<rparr> [Push 5, Pop, Pop, Push 7, Push 8]
           = Some v' \<and> int (vector_size v') = 0 + 3 - 2 + 1)"
proof -
  have h: "vector_inv \<lparr>t = replicate 10 (0 :: int), cap = 10, sz = 0\<rparr>"
    by (simp add: vector_inv_def)
  show ?thesis
    using h size_after_push_pop [OF h, of "[Push 5, Pop, Pop, Push 7, Push 8]"]
    by (auto simp: vector_size_def)
qed

text \<open>
  C7, as stated, at copy assignment: a vector built with \<^verbatim>\<open>vector(10, 0)\<close> has capacity 20;
  assigning to it a vector built with \<^verbatim>\<open>vector()\<close> leaves it with capacity 10.
\<close>

theorem assign_shrinks_counterexample:
  "vector_new 10 (0 :: int) = Some \<lparr>t = replicate 20 0, cap = 20, sz = 10\<rparr> \<and>
   vector_new 0 (0 :: int) = Some \<lparr>t = replicate 10 0, cap = 10, sz = 0\<rparr> \<and>
   vector_assign \<lparr>t = replicate 20 (0 :: int), cap = 20, sz = 10\<rparr>
       \<lparr>t = replicate 10 0, cap = 10, sz = 0\<rparr> False
     = Some \<lparr>t = replicate 10 0, cap = 10, sz = 0\<rparr> \<and>
   \<not> vector_capacity \<lparr>t = replicate 20 (0 :: int), cap = 20, sz = 10\<rparr>
       \<le> vector_capacity \<lparr>t = replicate 10 (0 :: int), cap = 10, sz = 0\<rparr>"
  by (simp add: vector_new_Some vector_assign_Some vector_inv_def elems_def vector_capacity_def
      new_array_def default_int_def flip: replicate_add)

text \<open>
  C7, amended: on a well-formed vector each of \<^verbatim>\<open>reserve\<close>, \<^verbatim>\<open>resize\<close>, \<^verbatim>\<open>push_back\<close>,
  \<^verbatim>\<open>push_back_incremental\<close> (the last three given a value held outside the vector, or,
  for the two appends, one of its own elements while it is not full), \<^verbatim>\<open>pop_back\<close>, \<^verbatim>\<open>insert\<close> (at a position up to the size),
  \<^verbatim>\<open>erase\<close> and \<^verbatim>\<open>clear\<close> returns with a capacity that is at least the capacity before.
  Copy assignment from the vector itself changes nothing; copy assignment from another
  well-formed vector makes the capacity equal to that of the source, whatever it was.
\<close>

theorem capacity_after_operations:
  assumes "vector_inv v"
  shows "(\<forall>c. \<exists>v'. reserve v c = Some v' \<and> vector_capacity v \<le> vector_capacity v') \<and>
         (\<forall>n x. \<exists>v'. resize v n (Val x) = Some v' \<and> vector_capacity v \<le> vector_capacity v') \<and>
         (\<forall>x. \<exists>v'. push_back v (Val x) = Some v' \<and> vector_capacity v \<le> vector_capacity v') \<and>
         (\<forall>x. \<exists>v'. push_back_incremental v (Val x) = Some v' \<and>
                 vector_capacity v \<le> vector_capacity v') \<and>
         (\<forall>i. i < vector_size v \<and> vector_size v < vector_capacity v \<longrightarrow>
            (\<exists>v'. push_back v (Own i) = Some v' \<and> vector_capacity v \<le> vector_capacity v') \<and>
            (\<exists>v'. push_back_incremental v (Own i) = Some v' \<and>
                  vector_capacity v \<le> vector_capacity v')) \<and>
         (\<exists>v'. pop_back v = Some v' \<and> vector_capacity v \<le> vector_capacity v') \<and>
         (\<forall>i x. i \<le> vector_size v \<longrightarrow>
            (\<exists>v'. vector_insert v i x = Some (v', i) \<and> vector_capacity v \<le> vector_capacity v')) \<and>
         (\<forall>i. \<exists>v'. vector_erase v i = Some (v', i) \<and> vector_capacity v \<le> vector_capacity v') \<and>
         (\<exists>v'. clear v = Some v' \<and> vector_capacity v \<le> vector_capacity v') \<and>
         vector_assign v v True = Some v \<and>
         (\<forall>w. vector_inv w \<longrightarrow>
            (\<exists>v'. vector_assign v w False = Some v' \<and> vector_capacity v' = vector_capacity w))"
proof -
  have 1: "\<exists>v'. reserve v c = Some v' \<and> vector_capacity v \<le> vector_capacity v'" for c
    using assms by (simp add: reserve_Some vector_capacity_def)
  have 2: "\<exists>v'. resize v n (Val x) = Some v' \<and> vector_capacity v \<le> vector_capacity v'" for n x
    using resize_props [OF assms, of n x] by (auto simp: vector_capacity_def)
  have 3: "\<exists>v'. push_back v (Val x) = Some v' \<and> vector_capacity v \<le> vector_capacity v'" for x
    using push_back_props [OF assms, of x] by (auto simp: vector_capacity_def)
  have 4: "\<exists>v'. push_back_incremental v (Val x) = Some v' \<and> vector_capacity v \<le> vector_capacity v'" for x
    using push_back_incremental_props [OF assms, of x] by (auto simp: vector_capacity_def)
  have 11: "(\<exists>v'. push_back v (Own i) = Some v' \<and> vector_capacity v \<le> vector_capacity v') \<and>
            (\<exists>v'. push_back_incremental v (Own i) = Some v' \<and>
                  vector_capacity v \<le> vector_capacity v')"
    if "i < vector_size v \<and> vector_size v < vector_capacity v" for i
    using that assms
    by (simp add: push_back_Own push_back_incremental_Own vector_size_def vector_capacity_def)
  have 5: "\<exists>v'. pop_back v = Some v' \<and> vector_capacity v \<le> vector_capacity v'"
    using pop_back_props [OF assms] by (auto simp: vector_capacity_def)
  have 6: "\<exists>v'. vector_insert v i x = Some (v', i) \<and> vector_capacity v \<le> vector_capacity v'"
    if "i \<le> vector_size v" for i x
  proof (cases "sz v < cap v")
    case True
    with that assms show ?thesis by (simp add: vector_insert_Some vector_size_def vector_capacity_def)
  next
    case False
    then show ?thesis by (simp add: vector_insert_def)
  qed
  have 7: "\<exists>v'. vector_erase v i = Some (v', i) \<and> vector_capacity v \<le> vector_capacity v'" for i
    using vector_erase_props [OF assms, of i] by (auto simp: vector_capacity_def)
  have 8: "\<exists>v'. clear v = Some v' \<and> vector_capacity v \<le> vector_capacity v'"
    using clear_props [OF assms] by (auto simp: vector_capacity_def)
  have 9: "vector_assign v v True = Some v"
    by (simp add: vector_assign_def)
  have 10: "\<exists>v'. vector_assign v w False = Some v' \<and> vector_capacity v' = vector_capacity w"
    if "vector_inv w" for w
    using that by (simp add: vector_assign_Some vector_capacity_def)
  from 1 2 3 4 5 6 7 8 9 10 11 show ?thesis by blast
qed

theorem capacity_after_operations_witness:
  "vector_inv \<lparr>t = [1, 2, 3, 0, 0, 0, 0, 0, 0, 0 :: int], cap = 10, sz = 3\<rparr> \<and>
   vector_inv \<lparr>t = replicate 20 (0 :: int), cap = 20, sz = 10\<rparr> \<and>
   (2 :: nat) \<le> vector_size \<lparr>t = [1, 2, 3, 0, 0, 0, 0, 0, 0, 0 :: int], cap = 10, sz = 3\<rparr> \<and>
   (\<exists>v'. vector_insert \<lparr>t = [1, 2, 3, 0, 0, 0, 0, 0, 0, 0 :: int], cap = 10, sz = 3\<rparr> 2 7
            = Some (v', 2) \<and> 10 \<le> vector_capacity v') \<and>
   (\<exists>v'. vector_assign \<lparr>t = [1, 2, 3, 0, 0, 0, 0, 0, 0, 0 :: int], cap = 10, sz = 3\<rparr>
            \<lparr>t = replicate 20 0, cap = 20, sz = 10\<rparr> False = Some v' \<and> vector_capacity v' = 20) \<and>
   (0 :: nat) < vector_size \<lparr>t = [1, 2, 3, 0, 0, 0, 0, 0, 0, 0 :: int], cap = 10, sz = 3\<rparr> \<and>
   vector_size \<lparr>t = [1, 2, 3, 0, 0, 0, 0, 0, 0, 0 :: int], cap = 10, sz = 3\<rparr>
     < vector_capacity \<lparr>t = [1, 2, 3, 0, 0, 0, 0, 0, 0, 0 :: int], cap = 10, sz = 3\<rparr> \<and>
   (\<exists>v'. push_back \<lparr>t = [1, 2, 3, 0, 0, 0, 0, 0, 0, 0 :: int], cap = 10, sz = 3\<rparr> (Own 0)
            = Some v' \<and> 10 \<le> vector_capacity v')"
proof -
  have h: "vector_inv \<lparr>t = [1, 2, 3, 0, 0, 0, 0, 0, 0, 0 :: int], cap = 10, sz = 3\<rparr>"
    by (simp add: vector_inv_def)
  have w: "vector_inv \<lparr>t = replicate 20 (0 :: int), cap = 20, sz = 10\<rparr>"
    by (simp add: vector_inv_def)
  have p: "(2 :: nat) \<le> vector_size \<lparr>t = [1, 2, 3, 0, 0, 0, 0, 0, 0, 0 :: int], cap = 10, sz = 3\<rparr>"
    by (simp add: vector_size_def)
  note c = capacity_after_operations [OF h]
  from c p have a: "\<exists>v'. vector_insert \<lparr>t = [1, 2, 3, 0, 0, 0, 0, 0, 0, 0 :: int], cap = 10, sz = 3\<rparr> 2 7
            = Some (v', 2) \<and> vector_capacity \<lparr>t = [1, 2, 3, 0, 0, 0, 0, 0, 0, 0 :: int], cap = 10, sz = 3\<rparr>
               \<le> vector_capacity v'"
    by blast
  from c w have b: "\<exists>v'. vector_assign \<lparr>t = [1, 2, 3, 0, 0, 0, 0, 0, 0, 0 :: int], cap = 10, sz = 3\<rparr>
            \<lparr>t = replicate 20 0, cap = 20, sz = 10\<rparr> False = Some v' \<and>
          vector_capacity v' = vector_capacity \<lparr>t = replicate 20 (0 :: int), cap = 20, sz = 10\<rparr>"
    by blast
  have q: "(0 :: nat) < vector_size \<lparr>t = [1, 2, 3, 0, 0, 0, 0, 0, 0, 0 :: int], cap = 10, sz = 3\<rparr> \<and>
      vector_size \<lparr>t = [1, 2, 3, 0, 0, 0, 0, 0, 0, 0 :: int], cap = 10, sz = 3\<rparr>
        < vector_capacity \<lparr>t = [1, 2, 3, 0, 0, 0, 0, 0, 0, 0 :: int], cap = 10, sz = 3\<rparr>"
    by (simp add: vector_size_def vector_capacity_def)
  from c q have d: "\<exists>v'. push_back \<lparr>t = [1, 2, 3, 0, 0, 0, 0, 0, 0, 0 :: int], cap = 10, sz = 3\<rparr> (Own 0)
            = Some v' \<and> vector_capacity \<lparr>t = [1, 2, 3, 0, 0, 0, 0, 0, 0, 0 :: int], cap = 10, sz = 3\<rparr>
               \<le> vector_capacity v'"
    by blast
  from a b d h w p q show ?thesis
    by (simp add: vector_capacity_def)
qed

text \<open>
  C8 at the list \<open>[10, 20, 30]\<close> and the iterator of the node that holds 30: it is neither the
  first node nor the end sentinel, and \<^verbatim>\<open>erase\<close> does not remove it: the last branch
  evaluates \<^verbatim>\<open>i.n->next->prev\<close> with \<^verbatim>\<open>i.n->next\<close> null.
\<close>

theorem erase_node_30_undefined:
  "list_elems list_10_20_30 = Some [10, 20, 30] \<and>
   get_t (nodes list_10_20_30) (Some 2) = Some 30 \<and>
   Some 2 \<noteq> list_begin list_10_20_30 \<and>
   Some 2 \<noteq> list_end list_10_20_30 \<and>
   list_erase list_10_20_30 (Some 2) = None"
  by (simp add: list_elems_def get_t_def deref_def list_begin_def list_end_def list_erase_def
      get_next_def get_prev_def set_prev_def eval_nat_numeral)

text \<open>
  C9: on a well-formed vector, and on a well-formed list, \<^verbatim>\<open>resize(n)\<close> followed by
  \<^verbatim>\<open>resize\<close> to the original size both return and leave the container with its original
  size. After the first call the container holds its first \<open>n\<close> former elements, followed
  by the default value in every slot beyond the original size; after the second one it
  holds what is left of those elements, followed by the default value.
\<close>

theorem resize_round_trip:
  "(vector_inv v \<longrightarrow>
      (\<exists>v1 v2. resize v n (Val default) = Some v1 \<and> vector_size v1 = n \<and>
               elems v1 = take n (elems v) @ replicate (n - vector_size v) default \<and>
               resize v1 (vector_size v) (Val default) = Some v2 \<and> vector_size v2 = vector_size v \<and>
               elems v2 = take n (elems v) @ replicate (vector_size v - n) default)) \<and>
   (list_inv l \<and> list_elems l = Some xs \<longrightarrow>
      (\<exists>l1 l2. list_resize l n default = Some l1 \<and> list_size l1 = n \<and>
               list_elems l1 = Some (take n xs @ replicate (n - list_size l) default) \<and>
               list_resize l1 (list_size l) default = Some l2 \<and> list_size l2 = list_size l \<and>
               list_elems l2 = Some (take n xs @ replicate (list_size l - n) default)))"
proof (intro conjI impI)
  assume inv: "vector_inv v"
  have len: "length (elems v) = sz v" using inv by (simp add: elems_def vector_inv_def)
  from resize_props [OF inv, of n default] obtain v1 where
    v1: "resize v n (Val default) = Some v1" "vector_inv v1" "sz v1 = n"
      "elems v1 = take n (elems v) @ replicate (n - sz v) default" by blast
  from resize_props [OF v1(2), of "sz v" default] obtain v2 where
    v2: "resize v1 (sz v) (Val default) = Some v2" "sz v2 = sz v"
      "elems v2 = take (sz v) (elems v1) @ replicate (sz v - sz v1) default" by blast
  have "take (sz v) (elems v1) = take n (elems v)"
    using v1(4) len by (cases "n \<le> sz v") (simp_all add: min_def)
  with v1 v2 show "\<exists>v1 v2. resize v n (Val default) = Some v1 \<and> vector_size v1 = n \<and>
               elems v1 = take n (elems v) @ replicate (n - vector_size v) default \<and>
               resize v1 (vector_size v) (Val default) = Some v2 \<and> vector_size v2 = vector_size v \<and>
               elems v2 = take n (elems v) @ replicate (vector_size v - n) default"
    by (simp add: vector_size_def)
next
  assume "list_inv l \<and> list_elems l = Some xs"
  then have rep: "list_rep l xs" by (simp add: list_rep_def)
  have len: "length xs = list_sz l" using rep by (rule list_rep_length)
  from list_resize_rep [OF rep, of n default] obtain l1 where
    l1: "list_resize l n default = Some l1"
      "list_rep l1 (take n xs @ replicate (n - list_sz l) default)" "list_sz l1 = n" by blast
  from list_resize_rep [OF l1(2), of "list_sz l" default] obtain l2 where
    l2: "list_resize l1 (list_sz l) default = Some l2"
      "list_rep l2 (take (list_sz l) (take n xs @ replicate (n - list_sz l) default)
                     @ replicate (list_sz l - list_sz l1) default)"
      "list_sz l2 = list_sz l" by blast
  have "take (list_sz l) (take n xs @ replicate (n - list_sz l) default) = take n xs"
    using len by (cases "n \<le> list_sz l") (simp_all add: min_def)
  with l1 l2 show "\<exists>l1 l2. list_resize l n default = Some l1 \<and> list_size l1 = n \<and>
               list_elems l1 = Some (take n xs @ replicate (n - list_size l) default) \<and>
               list_resize l1 (list_size l) default = Some l2 \<and> list_size l2 = list_size l \<and>
               list_elems l2 = Some (take n xs @ replicate (list_size l - n) default)"
    by (auto simp: list_size_def list_rep_def)
qed

theorem resize_round_trip_witness:
  "vector_inv \<lparr>t = [1, 2, 3, 0, 0, 0, 0, 0, 0, 0 :: int], cap = 10, sz = 3\<rparr> \<and>
   (\<exists>v1 v2. resize \<lparr>t = [1, 2, 3, 0, 0, 0, 0, 0, 0, 0 :: int], cap = 10, sz = 3\<rparr> 5 (Val default) = Some v1 \<and>
            vector_size v1 = 5 \<and> elems v1 = [1, 2, 3, 0, 0] \<and>
            resize v1 3 (Val default) = Some v2 \<and> vector_size v2 = 3 \<and> elems v2 = [1, 2, 3]) \<and>
   list_inv list_10_20_30 \<and> list_elems list_10_20_30 = Some [10, 20, 30] \<and>
   (\<exists>l1 l2. list_resize list_10_20_30 1 default = Some l1 \<and> list_size l1 = 1 \<and>
            list_elems l1 = Some [10] \<and>
            list_resize l1 3 default = Some l2 \<and> list_size l2 = 3 \<and>
            list_elems l2 = Some [10, 0, 0])"
proof -
  have a: "vector_inv \<lparr>t = [1, 2, 3, 0, 0, 0, 0, 0, 0, 0 :: int], cap = 10, sz = 3\<rparr>"
    by (simp add: vector_inv_def)
  have b: "list_inv list_10_20_30 \<and> list_elems list_10_20_30 = Some [10, 20, 30]"
    by (simp add: list_inv_def dll_def list_elems_def deref_def last_ptr_def eval_nat_numeral)
  from resize_round_trip [of "\<lparr>t = [1, 2, 3, 0, 0, 0, 0, 0, 0, 0 :: int], cap = 10, sz = 3\<rparr>" 5
      list_10_20_30 "[10, 20, 30]"] a
  have c: "\<exists>v1 v2. resize \<lparr>t = [1, 2, 3, 0, 0, 0, 0, 0, 0, 0 :: int], cap = 10, sz = 3\<rparr> 5 (Val default) = Some v1 \<and>
            vector_size v1 = 5 \<and> elems v1 = [1, 2, 3, 0, 0] \<and>
            resize v1 3 (Val default) = Some v2 \<and> vector_size v2 = 3 \<and> elems v2 = [1, 2, 3]"
    by (simp add: vector_size_def elems_def default_int_def eval_nat_numeral)
  from resize_round_trip [of "\<lparr>t = [1, 2, 3, 0, 0, 0, 0, 0, 0, 0 :: int], cap = 10, sz = 3\<rparr>" 1
      list_10_20_30 "[10, 20, 30]"] b
  have d: "\<exists>l1 l2. list_resize list_10_20_30 1 default = Some l1 \<and> list_size l1 = 1 \<and>
            list_elems l1 = Some [10] \<and>
            list_resize l1 3 default = Some l2 \<and> list_size l2 = 3 \<and>
            list_elems l2 = Some [10, 0, 0]"
    by (simp add: list_size_def default_int_def eval_nat_numeral)
  from a b c d show ?thesis by simp
qed

text \<open>
  C10: on a well-formed list that is not empty, \<^verbatim>\<open>erase(end())\<close> returns, does what
  \<^verbatim>\<open>pop_back\<close> does, and leaves a well-formed list that holds the former elements without
  the last one, with the size decremented by 1.
\<close>

theorem erase_end_is_pop_back:
  assumes "list_inv l" and "list_elems l = Some xs" and "\<not> list_empty l"
  shows "\<exists>l'. list_erase l (list_end l) = Some (l', list_end l) \<and>
           list_pop_back l = Some l' \<and> list_inv l' \<and>
           list_elems l' = Some (butlast xs) \<and> list_size l' + 1 = list_size l"
proof -
  have rep: "list_rep l xs" using assms(1,2) by (simp add: list_rep_def)
  have "head l \<noteq> None" using list_rep_head [OF rep] assms(3) by (simp add: list_empty_def)
  then have "list_end l \<noteq> list_begin l" by (auto simp: list_end_def list_begin_def)
  with list_pop_back_rep [OF rep] assms(3) show ?thesis
    by (auto simp: list_erase_def list_rep_def list_size_def list_empty_def)
qed

theorem erase_end_is_pop_back_witness:
  "list_inv list_10_20_30 \<and> list_elems list_10_20_30 = Some [10, 20, 30] \<and>
   \<not> list_empty list_10_20_30 \<and>
   (\<exists>l'. list_erase list_10_20_30 (list_end list_10_20_30) = Some (l', list_end list_10_20_30) \<and>
         list_pop_back list_10_20_30 = Some l' \<and> list_inv l' \<and>
         list_elems l' = Some [10, 20] \<and> list_size l' + 1 = 3)"
proof -
  have a: "list_inv list_10_20_30"
    by (simp add: list_inv_def dll_def deref_def last_ptr_def eval_nat_numeral)
  have b: "list_elems list_10_20_30 = Some [10, 20, 30]"
    by (simp add: list_elems_def deref_def eval_nat_numeral)
  have c: "\<not> list_empty list_10_20_30"
    by (simp add: list_empty_def)
  from erase_end_is_pop_back [OF a b c] a b c show ?thesis
    by (simp add: list_size_def)
qed

end
